theory Spec2Isabelle
  imports Main
begin

section \<open>Lowering of statements to a control-flow graph (SILGenStmt.cpp)\<close>

text \<open>
  A shallow embedding of \<^verbatim>\<open>lib/SILGen/SILGenStmt.cpp\<close>: the lowering of statements
  (blocks, \<open>if\<close>, \<open>while\<close>, \<open>do-while\<close>, \<open>for\<close>, \<open>for-each\<close>, \<open>break\<close>, \<open>continue\<close>, \<open>return\<close>,
  \<open>fail\<close>) into basic blocks and branches. The lowering context \<open>SILGenFunction\<close> is a
  record passed through every function and returned updated; an assertion that fails and
  \<open>llvm_unreachable\<close> are error values.

  \<open>visitSwitchStmt\<close> and \<open>visitFallthroughStmt\<close> only forward to \<open>emitSwitchStmt\<close> and
  \<open>emitSwitchFallthrough\<close> of \<^verbatim>\<open>SILGenPattern.cpp\<close>; the statement type below has the
  statement kinds whose lowering this file implements.
\<close>

subsection \<open>The statement tree\<close>

text \<open>
  Expressions, declarations and patterns are lowered elsewhere. An expression is known by
  its identity and by whether its type is \<open>Void\<close> (\<open>emitReturnExpr\<close> asks); a pattern
  binding by its identity, its pattern, and the two facts \<open>emitConditionalBindingBuffers\<close>
  asserts. A loop statement carries its identity, which \<open>break\<close> and \<open>continue\<close> name
  as their target.
\<close>

datatype Expr = Expr (expr_id: nat) (isVoid: bool)

type_synonym Decl = nat
type_synonym Pattern = nat
type_synonym SILType = nat

datatype PatternBindingDecl =
  PatternBindingDecl (pbd_id: nat) (getPattern: Pattern) (isConditional: bool)
    (getInit: "Expr option")

datatype StmtConditionElement =
    CondExpr Expr
  | CondBinding PatternBindingDecl

datatype Stmt =
    BraceStmt "ASTNode list"
  | ReturnStmt "Expr option"
  | IfStmt "StmtConditionElement list" Stmt "Stmt option"
  | IfConfigStmt
  | WhileStmt nat "StmtConditionElement list" Stmt
  | DoWhileStmt nat Stmt Expr
  | ForStmt nat "Decl list" "Expr option" "Expr option" "Expr option" Stmt
  | ForEachStmt nat Decl Expr Pattern Stmt
  | BreakStmt "nat option"
  | ContinueStmt "nat option"
  | CaseStmt
  | FailStmt
and ASTNode =
    NodeStmt Stmt
  | NodeExpr Expr
  | NodeDecl Decl

fun isa_IfConfigStmt :: "Stmt \<Rightarrow> bool" where
  "isa_IfConfigStmt IfConfigStmt = True"
| "isa_IfConfigStmt _ = False"

fun isa_ContinueStmt :: "Stmt \<Rightarrow> bool" where
  "isa_ContinueStmt (ContinueStmt _) = True"
| "isa_ContinueStmt _ = False"

fun isa_ReturnStmt :: "Stmt \<Rightarrow> bool" where
  "isa_ReturnStmt (ReturnStmt _) = True"
| "isa_ReturnStmt _ = False"

subsection \<open>The graph under construction\<close>

text \<open>
  A basic block is known by its identity (a number, given out in creation order). Values
  are the results of the opaque evaluations; storage slots are numbered \<open>alloc_stack\<close>s.
  What expression, declaration and pattern lowering and the cleanup stack emit is one
  opaque instruction each (\<open>External\<close>): only the instructions this file creates itself
  are instructions of their own.
\<close>

datatype SILValue =
    RValueOf Expr
  | OptionalHasValue nat
  | StackAddress nat
  | FunctionArgument nat

fun isAddress :: "SILValue \<Rightarrow> bool" where
  "isAddress (StackAddress _) = True"
| "isAddress _ = False"

datatype Emission =
    EmitRValue Expr
  | EmitExprInto Expr SILValue
  | EmitIgnoredExpr Expr
  | EmitDecl Decl
  | EmitDoesOptionalHaveValue nat
  | EmitPatternBindingInitialization Pattern
  | EmitUncheckedGetOptionalValueFrom nat Pattern
  | EmitCleanups nat nat

datatype SILInstruction =
    BranchInst nat "SILValue list"
  | CondBranchInst SILValue nat nat
  | DestroyAddrInst nat
  | AllocStackInst nat
  | StrongReleaseInst SILValue
  | External Emission

fun successors :: "SILInstruction \<Rightarrow> nat list" where
  "successors (BranchInst bb args) = [bb]"
| "successors (CondBranchInst v t f) = [t, f]"
| "successors _ = []"

record SILBasicBlock =
  insts :: "SILInstruction list"
  bbargs :: "SILType list"

datatype JumpDest = JumpDest (getBlock: nat) (getDepth: nat)

record VarLoc =
  loc_box :: "SILValue option"
  loc_value :: SILValue

datatype Diagnostic =
    unreachable_code_after_stmt ASTNode nat
  | unreachable_code ASTNode

datatype error = AssertionFailure | Unreachable

record SILGenFunction =
  blocks :: "nat \<Rightarrow> SILBasicBlock"
  layout :: "nat list"
  next_block :: nat
  next_slot :: nat
  InsertionPoint :: "nat option"
  CleanupsDepth :: nat
  BreakContinueDestStack :: "(nat \<times> JumpDest \<times> JumpDest) list"
  ReturnDest :: JumpDest
  FailDest :: "JumpDest option"
  FailSelfDecl :: "Decl option"
  VarLocs :: "Decl \<Rightarrow> VarLoc"
  IndirectReturnAddress :: "SILValue option"
  Diags :: "Diagnostic list"

subsection \<open>The IR builder\<close>

text \<open>
  Modelled from the spec: the IR Builder Facade (\<open>SILBuilder\<close>, \<open>SILBasicBlock\<close>), which is
  not in this source file. \<open>createBlock\<close> adds a new, empty block to the function;
  an instruction goes to the end of the insertion block, and nowhere when there is no
  insertion point; a terminator clears the insertion point; \<open>emitBlock\<close> moves a block
  to the end of the function and makes it the insertion block, the form with a location
  first branching to it from the current block when the insertion point is valid. A block
  has a predecessor when a terminator of some block of the function names it.
\<close>

definition hasValidInsertionPoint :: "SILGenFunction \<Rightarrow> bool" where
  "hasValidInsertionPoint gen = (InsertionPoint gen \<noteq> None)"

definition clearInsertionPoint :: "SILGenFunction \<Rightarrow> SILGenFunction" where
  "clearInsertionPoint gen = gen\<lparr>InsertionPoint := None\<rparr>"

definition createBasicBlock :: "SILGenFunction \<Rightarrow> nat \<times> SILGenFunction" where
  "createBasicBlock gen =
     (let bb = next_block gen
      in (bb, gen\<lparr>blocks := (blocks gen)(bb := \<lparr>insts = [], bbargs = []\<rparr>),
                  layout := layout gen @ [bb],
                  next_block := Suc bb\<rparr>))"

definition appendInst :: "nat \<Rightarrow> SILInstruction \<Rightarrow> SILGenFunction \<Rightarrow> SILGenFunction" where
  "appendInst bb i gen =
     gen\<lparr>blocks := (blocks gen)(bb := (blocks gen bb)\<lparr>insts := insts (blocks gen bb) @ [i]\<rparr>)\<rparr>"

definition prependInst :: "nat \<Rightarrow> SILInstruction \<Rightarrow> SILGenFunction \<Rightarrow> SILGenFunction" where
  "prependInst bb i gen =
     gen\<lparr>blocks := (blocks gen)(bb := (blocks gen bb)\<lparr>insts := i # insts (blocks gen bb)\<rparr>)\<rparr>"

definition addArgument :: "nat \<Rightarrow> SILType \<Rightarrow> SILGenFunction \<Rightarrow> SILGenFunction" where
  "addArgument bb ty gen =
     gen\<lparr>blocks := (blocks gen)(bb := (blocks gen bb)\<lparr>bbargs := bbargs (blocks gen bb) @ [ty]\<rparr>)\<rparr>"

definition insertInst :: "SILInstruction \<Rightarrow> SILGenFunction \<Rightarrow> SILGenFunction" where
  "insertInst i gen =
     (case InsertionPoint gen of None \<Rightarrow> gen | Some bb \<Rightarrow> appendInst bb i gen)"

definition insertTerminator :: "SILInstruction \<Rightarrow> SILGenFunction \<Rightarrow> SILGenFunction" where
  "insertTerminator i gen = clearInsertionPoint (insertInst i gen)"

definition createBranch :: "nat \<Rightarrow> SILValue list \<Rightarrow> SILGenFunction \<Rightarrow> SILGenFunction" where
  "createBranch bb args gen = insertTerminator (BranchInst bb args) gen"

definition createCondBranch ::
  "SILValue \<Rightarrow> nat \<Rightarrow> nat \<Rightarrow> SILGenFunction \<Rightarrow> SILGenFunction" where
  "createCondBranch v t f gen = insertTerminator (CondBranchInst v t f) gen"

definition emitBlock :: "nat \<Rightarrow> SILGenFunction \<Rightarrow> SILGenFunction" where
  "emitBlock bb gen =
     gen\<lparr>layout := filter (\<lambda>b. b \<noteq> bb) (layout gen) @ [bb], InsertionPoint := Some bb\<rparr>"

definition emitBlockAt :: "nat \<Rightarrow> SILGenFunction \<Rightarrow> SILGenFunction" where
  "emitBlockAt bb gen =
     (if \<not> hasValidInsertionPoint gen then emitBlock bb gen
      else emitBlock bb (createBranch bb [] gen))"

definition eraseFromParent :: "nat \<Rightarrow> SILGenFunction \<Rightarrow> SILGenFunction" where
  "eraseFromParent bb gen = gen\<lparr>layout := filter (\<lambda>b. b \<noteq> bb) (layout gen)\<rparr>"

definition pred_empty :: "nat \<Rightarrow> SILGenFunction \<Rightarrow> bool" where
  "pred_empty bb gen =
     (\<forall>b \<in> set (layout gen). \<forall>i \<in> set (insts (blocks gen b)). bb \<notin> set (successors i))"

definition block_empty :: "nat \<Rightarrow> SILGenFunction \<Rightarrow> bool" where
  "block_empty bb gen = (insts (blocks gen bb) = [])"

subsection \<open>The cleanup stack and the opaque collaborators\<close>

text \<open>
  Modelled from the spec: the Cleanup Stack (\<open>Scope\<close>, \<open>FullExpr\<close>, \<open>LexicalScope\<close>,
  \<open>getCleanupsDepth\<close>, \<open>emitBranchAndCleanups\<close>), which is not in this source file. The depth
  is a token that grows with every scope entered; leaving a scope at a valid insertion point
  emits the scope's cleanups (one opaque instruction naming the two depths) and restores the
  depth; a branch with cleanups requires a valid insertion point, emits the cleanups down to
  the destination's depth and branches to the destination's block.
\<close>

definition getCleanupsDepth :: "SILGenFunction \<Rightarrow> nat" where
  "getCleanupsDepth gen = CleanupsDepth gen"

definition pushScope :: "SILGenFunction \<Rightarrow> nat \<times> SILGenFunction" where
  "pushScope gen = (CleanupsDepth gen, gen\<lparr>CleanupsDepth := Suc (CleanupsDepth gen)\<rparr>)"

definition popScope :: "nat \<Rightarrow> SILGenFunction \<Rightarrow> SILGenFunction" where
  "popScope depth gen =
     (insertInst (External (EmitCleanups (CleanupsDepth gen) depth)) gen)\<lparr>CleanupsDepth := depth\<rparr>"

definition emitBranchAndCleanups ::
  "JumpDest \<Rightarrow> SILValue list \<Rightarrow> SILGenFunction \<Rightarrow> error + SILGenFunction" where
  "emitBranchAndCleanups dest args gen =
     (if \<not> hasValidInsertionPoint gen then Inl AssertionFailure
      else Inr (createBranch (getBlock dest) args
                 (insertInst (External (EmitCleanups (CleanupsDepth gen) (getDepth dest))) gen)))"

text \<open>
  Modelled from the spec: the expression evaluator, the optional-value protocol, the
  pattern-binding initializer factory and declaration lowering, which are not in this
  source file. Each emits its code at the insertion point, as one opaque instruction.
  \<open>emitTemporary\<close> and \<open>emitTemporaryAllocation\<close> allocate a new storage slot.
\<close>

definition emitRValue :: "Expr \<Rightarrow> SILGenFunction \<Rightarrow> SILValue \<times> SILGenFunction" where
  "emitRValue E gen = (RValueOf E, insertInst (External (EmitRValue E)) gen)"

definition emitExprInto :: "Expr \<Rightarrow> SILValue \<Rightarrow> SILGenFunction \<Rightarrow> SILGenFunction" where
  "emitExprInto E addr gen = insertInst (External (EmitExprInto E addr)) gen"

definition emitIgnoredExpr :: "Expr \<Rightarrow> SILGenFunction \<Rightarrow> SILGenFunction" where
  "emitIgnoredExpr E gen = insertInst (External (EmitIgnoredExpr E)) gen"

definition visitDecl :: "Decl \<Rightarrow> SILGenFunction \<Rightarrow> SILGenFunction" where
  "visitDecl D gen = insertInst (External (EmitDecl D)) gen"

definition emitDoesOptionalHaveValue ::
  "nat \<Rightarrow> SILGenFunction \<Rightarrow> SILValue \<times> SILGenFunction" where
  "emitDoesOptionalHaveValue addr gen =
     (OptionalHasValue addr, insertInst (External (EmitDoesOptionalHaveValue addr)) gen)"

definition emitPatternBindingInitialization :: "Pattern \<Rightarrow> SILGenFunction \<Rightarrow> SILGenFunction" where
  "emitPatternBindingInitialization P gen =
     insertInst (External (EmitPatternBindingInitialization P)) gen"

definition emitUncheckedGetOptionalValueFrom ::
  "nat \<Rightarrow> Pattern \<Rightarrow> SILGenFunction \<Rightarrow> SILGenFunction" where
  "emitUncheckedGetOptionalValueFrom addr P gen =
     insertInst (External (EmitUncheckedGetOptionalValueFrom addr P)) gen"

definition emitTemporaryAllocation :: "SILGenFunction \<Rightarrow> nat \<times> SILGenFunction" where
  "emitTemporaryAllocation gen =
     (let slot = next_slot gen
      in (slot, (insertInst (AllocStackInst slot) gen)\<lparr>next_slot := Suc slot\<rparr>))"

definition emitTemporary :: "SILGenFunction \<Rightarrow> nat \<times> SILGenFunction" where
  "emitTemporary gen = emitTemporaryAllocation gen"

text \<open>
  Modelled from the spec: the \<open>Condition\<close> record and its completion protocol
  (\<^verbatim>\<open>Condition.h\<close>), which is not in this source file. Entering the true branch moves the
  insertion point into the true block; leaving it branches to the continuation block when
  the insertion point is valid; completing discards the continuation block when nothing
  reaches it and continues in it otherwise. A record without a continuation block (the
  infinite loop of \<open>visitForStmt\<close>) needs none of the three.
\<close>

datatype Condition =
  Condition (getTrueBB: "nat option") (getFalseBB: "nat option") (getContBB: "nat option")

definition hasTrue :: "Condition \<Rightarrow> bool" where
  "hasTrue C = (getTrueBB C \<noteq> None)"

definition enterTrue :: "Condition \<Rightarrow> SILGenFunction \<Rightarrow> error + SILGenFunction" where
  "enterTrue C gen =
     (case getTrueBB C of
        None \<Rightarrow> Inl AssertionFailure
      | Some t \<Rightarrow> (case getContBB C of None \<Rightarrow> Inr gen | Some c \<Rightarrow> Inr (emitBlock t gen)))"

definition exitTrue :: "Condition \<Rightarrow> SILGenFunction \<Rightarrow> SILGenFunction" where
  "exitTrue C gen =
     (case getContBB C of
        None \<Rightarrow> gen
      | Some c \<Rightarrow> if hasValidInsertionPoint gen then createBranch c [] gen else gen)"

definition complete :: "Condition \<Rightarrow> SILGenFunction \<Rightarrow> SILGenFunction" where
  "complete C gen =
     (case getContBB C of
        None \<Rightarrow> gen
      | Some c \<Rightarrow> if pred_empty c gen then eraseFromParent c gen else emitBlock c gen)"

subsection \<open>emitOrDeleteBlock and emitCondition\<close>

definition emitOrDeleteBlock :: "nat \<Rightarrow> SILGenFunction \<Rightarrow> SILGenFunction" where
  "emitOrDeleteBlock BB gen =
     (if pred_empty BB gen then eraseFromParent BB gen else emitBlockAt BB gen)"

definition emitConditionValue ::
  "SILValue \<Rightarrow> bool \<Rightarrow> bool \<Rightarrow> SILType list \<Rightarrow> SILGenFunction
     \<Rightarrow> error + (Condition \<times> SILGenFunction)" where
  "emitConditionValue V hasFalseCode invertValue contArgs gen =
     (if \<not> hasValidInsertionPoint gen then Inl AssertionFailure
      else
        let (ContBB, gen) = createBasicBlock gen;
            (TrueBB, gen) = createBasicBlock gen;
            gen = fold (addArgument ContBB) contArgs gen;
            (FalseBB, FalseDestBB, gen) =
              (if hasFalseCode
               then (let (bb, gen) = createBasicBlock gen in (Some bb, bb, gen))
               else (None, ContBB, gen));
            gen = (if invertValue then createCondBranch V FalseDestBB TrueBB gen
                   else createCondBranch V TrueBB FalseDestBB gen)
        in Inr (Condition (Some TrueBB) FalseBB (Some ContBB), gen))"

definition emitCondition ::
  "Expr \<Rightarrow> bool \<Rightarrow> bool \<Rightarrow> SILType list \<Rightarrow> SILGenFunction
     \<Rightarrow> error + (Condition \<times> SILGenFunction)" where
  "emitCondition E hasFalseCode invertValue contArgs gen =
     (if \<not> hasValidInsertionPoint gen then Inl AssertionFailure
      else
        let (depth, gen) = pushScope gen;
            (V, gen) = emitRValue E gen;
            gen = popScope depth gen
        in emitConditionValue V hasFalseCode invertValue contArgs gen)"

subsection \<open>Conditional bindings\<close>

datatype ConditionalBinding = ConditionalBinding (PBD: PatternBindingDecl) (OptAddr: nat)

fun emitConditionalBindingBuffers ::
  "StmtConditionElement list \<Rightarrow> SILGenFunction
     \<Rightarrow> error + (ConditionalBinding list \<times> SILGenFunction)" where
  "emitConditionalBindingBuffers [] gen = Inr ([], gen)"
| "emitConditionalBindingBuffers (CondExpr E # cond) gen =
     emitConditionalBindingBuffers cond gen"
| "emitConditionalBindingBuffers (CondBinding CB # cond) gen =
     (if \<not> (isConditional CB \<and> getInit CB \<noteq> None) then Inl AssertionFailure
      else
        case emitConditionalBindingBuffers cond (snd (emitTemporary gen)) of
          Inl e \<Rightarrow> Inl e
        | Inr (buffers, gen') \<Rightarrow>
            Inr (ConditionalBinding CB (fst (emitTemporary gen)) # buffers, gen'))"

text \<open>The body of the loop of \<open>emitConditionalPatternBindings\<close>, and the loop.\<close>

definition emitConditionalPatternBinding ::
  "ConditionalBinding \<Rightarrow> SILGenFunction \<Rightarrow> SILGenFunction" where
  "emitConditionalPatternBinding CB gen =
     (let gen = emitPatternBindingInitialization (getPattern (PBD CB)) gen;
          (scope, gen) = pushScope gen;
          gen = emitUncheckedGetOptionalValueFrom (OptAddr CB) (getPattern (PBD CB)) gen
      in popScope scope gen)"

fun emitConditionalPatternBindings ::
  "ConditionalBinding list \<Rightarrow> SILGenFunction \<Rightarrow> SILGenFunction" where
  "emitConditionalPatternBindings [] gen = gen"
| "emitConditionalPatternBindings (CB # condBuffers) gen =
     emitConditionalPatternBindings condBuffers (emitConditionalPatternBinding CB gen)"

fun emitConditionalBindingBufferDestroys ::
  "ConditionalBinding list \<Rightarrow> SILGenFunction \<Rightarrow> SILGenFunction" where
  "emitConditionalBindingBufferDestroys [] gen = gen"
| "emitConditionalBindingBufferDestroys (elt # buffers) gen =
     emitConditionalBindingBufferDestroys buffers (insertInst (DestroyAddrInst (OptAddr elt)) gen)"

text \<open>
  The loop of \<open>emitStmtCondition\<close> over the condition list, with the loop's variables
  \<open>CleanupBlocks\<close> and \<open>nextBuffer\<close> as arguments: \<open>emitStmtCondition_expr\<close> is its body for
  a plain expression, \<open>emitStmtCondition_binding\<close> its body for a pattern binding, which
  returns the new \<open>CleanupBlocks\<close>. \<open>CleanupBlocks.back()\<close> is \<open>last\<close>: the list starts with
  one block and only grows.
\<close>

definition emitStmtCondition_expr ::
  "Expr \<Rightarrow> nat list \<Rightarrow> SILGenFunction \<Rightarrow> SILGenFunction" where
  "emitStmtCondition_expr expr CleanupBlocks gen =
     (let (scope, gen) = pushScope gen;
          (V, gen) = emitRValue expr gen;
          gen = popScope scope gen;
          (ContBB, gen) = createBasicBlock gen;
          gen = createCondBranch V ContBB (last CleanupBlocks) gen
      in emitBlock ContBB gen)"

definition emitStmtCondition_binding ::
  "PatternBindingDecl \<Rightarrow> ConditionalBinding list \<Rightarrow> nat list \<Rightarrow> nat \<Rightarrow> SILGenFunction
     \<Rightarrow> error + (nat list \<times> SILGenFunction)" where
  "emitStmtCondition_binding binding buffers CleanupBlocks nextBuffer gen =
     (if \<not> (nextBuffer < length buffers \<and> PBD (buffers ! nextBuffer) = binding)
      then Inl AssertionFailure
      else
        case getInit binding of
          None \<Rightarrow> Inl AssertionFailure
        | Some init \<Rightarrow>
            let buffer = buffers ! nextBuffer;
                (initScope, gen) = pushScope gen;
                gen = emitExprInto init (StackAddress (OptAddr buffer)) gen;
                gen = popScope initScope gen;
                (hasValue, gen) = emitDoesOptionalHaveValue (OptAddr buffer) gen;
                FalseDest = last CleanupBlocks;
                (FalseDest, CleanupBlocks, gen) =
                  (if \<not> pred_empty FalseDest gen
                   then
                     let (FalseDest, gen) = createBasicBlock gen;
                         gen = appendInst FalseDest (BranchInst (last CleanupBlocks) []) gen
                     in (FalseDest, CleanupBlocks @ [FalseDest], gen)
                   else (FalseDest, CleanupBlocks, gen));
                gen = prependInst FalseDest (DestroyAddrInst (OptAddr buffer)) gen;
                (ContBB, gen) = createBasicBlock gen;
                gen = createCondBranch hasValue ContBB (last CleanupBlocks) gen;
                gen = emitBlock ContBB gen
            in Inr (CleanupBlocks, gen))"

fun emitStmtCondition_loop ::
  "StmtConditionElement list \<Rightarrow> ConditionalBinding list \<Rightarrow> nat list \<Rightarrow> nat \<Rightarrow> SILGenFunction
     \<Rightarrow> error + (nat list \<times> SILGenFunction)" where
  "emitStmtCondition_loop [] buffers CleanupBlocks nextBuffer gen = Inr (CleanupBlocks, gen)"
| "emitStmtCondition_loop (CondExpr expr # C) buffers CleanupBlocks nextBuffer gen =
     emitStmtCondition_loop C buffers CleanupBlocks nextBuffer
       (emitStmtCondition_expr expr CleanupBlocks gen)"
| "emitStmtCondition_loop (CondBinding binding # C) buffers CleanupBlocks nextBuffer gen =
     (case emitStmtCondition_binding binding buffers CleanupBlocks nextBuffer gen of
        Inl e \<Rightarrow> Inl e
      | Inr (CleanupBlocks, gen) \<Rightarrow>
          emitStmtCondition_loop C buffers CleanupBlocks (nextBuffer + 1) gen)"

definition emitStmtCondition ::
  "StmtConditionElement list \<Rightarrow> ConditionalBinding list \<Rightarrow> SILGenFunction
     \<Rightarrow> error + (nat list \<times> SILGenFunction)" where
  "emitStmtCondition C buffers gen =
     (if \<not> hasValidInsertionPoint gen then Inl AssertionFailure
      else
        let (bb, gen) = createBasicBlock gen
        in case emitStmtCondition_loop C buffers [bb] 0 gen of
             Inl e \<Rightarrow> Inl e
           | Inr (CleanupBlocks, gen) \<Rightarrow> Inr (rev CleanupBlocks, gen))"

subsection \<open>Return, fail, break and continue\<close>

definition emitReturnExpr :: "Expr \<Rightarrow> SILGenFunction \<Rightarrow> error + SILGenFunction" where
  "emitReturnExpr ret gen =
     (case IndirectReturnAddress gen of
        Some addr \<Rightarrow>
          let (scope, gen) = pushScope gen;
              gen = emitExprInto ret addr gen;
              gen = popScope scope gen
          in emitBranchAndCleanups (ReturnDest gen) [] gen
      | None \<Rightarrow>
          let (scope, gen) = pushScope gen;
              (resultRValue, gen) = emitRValue ret gen;
              result = (if \<not> isVoid ret then [resultRValue] else []);
              gen = popScope scope gen
          in emitBranchAndCleanups (ReturnDest gen) result gen)"

definition visitReturnStmt :: "Expr option \<Rightarrow> SILGenFunction \<Rightarrow> error + SILGenFunction" where
  "visitReturnStmt result gen =
     (case result of
        None \<Rightarrow> emitBranchAndCleanups (ReturnDest gen) [] gen
      | Some ret \<Rightarrow> emitReturnExpr ret gen)"

definition emitBreakOutOf :: "nat \<Rightarrow> SILGenFunction \<Rightarrow> error + SILGenFunction" where
  "emitBreakOutOf target gen =
     (case find (\<lambda>elt. target = fst elt) (BreakContinueDestStack gen) of
        Some elt \<Rightarrow> emitBranchAndCleanups (fst (snd elt)) [] gen
      | None \<Rightarrow> Inl Unreachable)"

definition visitBreakStmt :: "nat option \<Rightarrow> SILGenFunction \<Rightarrow> error + SILGenFunction" where
  "visitBreakStmt target gen =
     (case target of
        None \<Rightarrow> Inl AssertionFailure
      | Some t \<Rightarrow> emitBreakOutOf t gen)"

definition visitContinueStmt :: "nat option \<Rightarrow> SILGenFunction \<Rightarrow> error + SILGenFunction" where
  "visitContinueStmt target gen =
     (case target of
        None \<Rightarrow> Inl AssertionFailure
      | Some t \<Rightarrow>
          (case find (\<lambda>elt. t = fst elt) (BreakContinueDestStack gen) of
             Some elt \<Rightarrow> emitBranchAndCleanups (snd (snd elt)) [] gen
           | None \<Rightarrow> Inl Unreachable))"

definition visitFailStmt :: "SILGenFunction \<Rightarrow> error + SILGenFunction" where
  "visitFailStmt gen =
     (case FailDest gen of
        None \<Rightarrow> Inl AssertionFailure
      | Some dest \<Rightarrow>
          (case FailSelfDecl gen of
             None \<Rightarrow> Inl AssertionFailure
           | Some self \<Rightarrow>
               let selfLoc = VarLocs gen self
               in (case loc_box selfLoc of
                     Some b \<Rightarrow>
                       emitBranchAndCleanups dest [] (insertInst (StrongReleaseInst b) gen)
                   | None \<Rightarrow>
                       if isAddress (loc_value selfLoc) then Inl AssertionFailure
                       else emitBranchAndCleanups dest []
                              (insertInst (StrongReleaseInst (loc_value selfLoc)) gen))))"

definition push_back ::
  "nat \<times> JumpDest \<times> JumpDest \<Rightarrow> SILGenFunction \<Rightarrow> SILGenFunction" where
  "push_back elt gen = gen\<lparr>BreakContinueDestStack := BreakContinueDestStack gen @ [elt]\<rparr>"

definition pop_back :: "SILGenFunction \<Rightarrow> SILGenFunction" where
  "pop_back gen = gen\<lparr>BreakContinueDestStack := butlast (BreakContinueDestStack gen)\<rparr>"

subsection \<open>The statements\<close>

text \<open>
  Each \<open>visit\<close> function of the source is the sequence of its parts around the lowering of
  its sub-statements; the parts are the definitions below, in the source's order, and
  \<open>visit\<close> puts them together. A scope object is the depth \<open>pushScope\<close> returned, and its
  destructor the \<open>popScope\<close> at the end of its block.
\<close>

definition emitCleanupBlocks :: "nat list \<Rightarrow> SILGenFunction \<Rightarrow> SILGenFunction" where
  "emitCleanupBlocks CleanupBlocks gen =
     fold (\<lambda>BB gen. emitBlock BB (clearInsertionPoint gen)) CleanupBlocks gen"

definition visitIfStmt_cond ::
  "StmtConditionElement list \<Rightarrow> SILGenFunction
     \<Rightarrow> error + (nat \<times> nat \<times> nat list \<times> SILGenFunction)" where
  "visitIfStmt_cond cond gen =
     (let (condBufferScope, gen) = pushScope gen
      in case emitConditionalBindingBuffers cond gen of
           Inl e \<Rightarrow> Inl e
         | Inr (condBuffers, gen) \<Rightarrow>
             (case emitStmtCondition cond condBuffers gen of
                Inl e \<Rightarrow> Inl e
              | Inr (CleanupBlocks, gen) \<Rightarrow>
                  let (trueScope, gen) = pushScope gen;
                      gen = emitConditionalPatternBindings condBuffers gen
                  in Inr (condBufferScope, trueScope, CleanupBlocks, gen)))"

definition visitIfStmt_noElse :: "nat list \<Rightarrow> SILGenFunction \<Rightarrow> SILGenFunction" where
  "visitIfStmt_noElse CleanupBlocks gen =
     (let (CleanupBlocks, gen) =
            (if hasValidInsertionPoint gen
             then
               let (CleanupBlocks, gen) =
                     (if \<not> block_empty (last CleanupBlocks) gen
                      then
                        let LastBlock = last CleanupBlocks;
                            (NewCont, gen) = createBasicBlock gen
                        in (CleanupBlocks @ [NewCont],
                            appendInst LastBlock (BranchInst NewCont []) gen)
                      else (CleanupBlocks, gen))
               in (CleanupBlocks, createBranch (last CleanupBlocks) [] gen)
             else (CleanupBlocks, gen))
      in emitCleanupBlocks CleanupBlocks gen)"

definition visitIfStmt_elseBegin :: "nat list \<Rightarrow> SILGenFunction \<Rightarrow> nat \<times> SILGenFunction" where
  "visitIfStmt_elseBegin CleanupBlocks gen =
     (let (ContBB, gen) = createBasicBlock gen;
          gen = (if hasValidInsertionPoint gen then createBranch ContBB [] gen else gen);
          gen = emitCleanupBlocks CleanupBlocks gen
      in (ContBB, gen))"

definition visitIfStmt_elseEnd :: "nat \<Rightarrow> SILGenFunction \<Rightarrow> SILGenFunction" where
  "visitIfStmt_elseEnd ContBB gen =
     (let gen = (if hasValidInsertionPoint gen then createBranch ContBB [] gen else gen)
      in if pred_empty ContBB gen then eraseFromParent ContBB gen else emitBlock ContBB gen)"

definition visitWhileStmt_head ::
  "nat \<Rightarrow> StmtConditionElement list \<Rightarrow> SILGenFunction
     \<Rightarrow> error + (nat \<times> nat \<times> nat \<times> nat list \<times> SILGenFunction)" where
  "visitWhileStmt_head S cond gen =
     (let (condBufferScope, gen) = pushScope gen
      in case emitConditionalBindingBuffers cond gen of
           Inl e \<Rightarrow> Inl e
         | Inr (condBuffers, gen) \<Rightarrow>
             let (LoopBB, gen) = createBasicBlock gen;
                 gen = emitBlockAt LoopBB gen
             in (case emitStmtCondition cond condBuffers gen of
                   Inl e \<Rightarrow> Inl e
                 | Inr (CleanupBlocks, gen) \<Rightarrow>
                     let gen = push_back (S, JumpDest (hd CleanupBlocks) (getCleanupsDepth gen),
                                             JumpDest LoopBB (getCleanupsDepth gen)) gen;
                         (trueScope, gen) = pushScope gen;
                         gen = emitConditionalPatternBindings condBuffers gen
                     in Inr (condBufferScope, trueScope, LoopBB, CleanupBlocks, gen)))"

definition visitWhileStmt_tail ::
  "nat \<Rightarrow> nat \<Rightarrow> nat \<Rightarrow> nat list \<Rightarrow> SILGenFunction \<Rightarrow> SILGenFunction" where
  "visitWhileStmt_tail condBufferScope trueScope LoopBB CleanupBlocks gen =
     (let gen = popScope trueScope gen;
          gen = (if hasValidInsertionPoint gen then createBranch LoopBB [] gen else gen);
          gen = pop_back gen;
          gen = emitCleanupBlocks CleanupBlocks gen
      in popScope condBufferScope gen)"

definition visitDoWhileStmt_head ::
  "nat \<Rightarrow> SILGenFunction \<Rightarrow> nat \<times> nat \<times> nat \<times> SILGenFunction" where
  "visitDoWhileStmt_head S gen =
     (let (LoopBB, gen) = createBasicBlock gen;
          gen = emitBlockAt LoopBB gen;
          (EndBB, gen) = createBasicBlock gen;
          (CondBB, gen) = createBasicBlock gen;
          gen = push_back (S, JumpDest EndBB (getCleanupsDepth gen),
                              JumpDest CondBB (getCleanupsDepth gen)) gen
      in (LoopBB, EndBB, CondBB, gen))"

definition visitDoWhileStmt_cond ::
  "Expr \<Rightarrow> nat \<Rightarrow> SILGenFunction \<Rightarrow> error + SILGenFunction" where
  "visitDoWhileStmt_cond cond LoopBB gen =
     (case emitCondition cond False False [] gen of
        Inl e \<Rightarrow> Inl e
      | Inr (Cond, gen) \<Rightarrow>
          (case enterTrue Cond gen of
             Inl e \<Rightarrow> Inl e
           | Inr gen \<Rightarrow>
               let gen = (if hasValidInsertionPoint gen
                          then createBranch LoopBB [] gen else gen);
                   gen = exitTrue Cond gen
               in Inr (complete Cond gen)))"

definition visitDoWhileStmt_tail ::
  "Expr \<Rightarrow> nat \<Rightarrow> nat \<Rightarrow> nat \<Rightarrow> SILGenFunction \<Rightarrow> error + SILGenFunction" where
  "visitDoWhileStmt_tail cond LoopBB EndBB CondBB gen =
     (let gen = emitOrDeleteBlock CondBB gen
      in case (if hasValidInsertionPoint gen then visitDoWhileStmt_cond cond LoopBB gen
               else Inr gen) of
           Inl e \<Rightarrow> Inl e
         | Inr gen \<Rightarrow> Inr (pop_back (emitOrDeleteBlock EndBB gen)))"

definition visitForStmt_init ::
  "Decl list \<Rightarrow> Expr option \<Rightarrow> SILGenFunction \<Rightarrow> nat \<times> SILGenFunction" where
  "visitForStmt_init decls initializer gen =
     (let (ForScope, gen) = pushScope gen;
          gen = fold visitDecl decls gen;
          gen = (case initializer of None \<Rightarrow> gen | Some I \<Rightarrow> emitIgnoredExpr I gen)
      in (ForScope, gen))"

definition visitForStmt_head ::
  "nat \<Rightarrow> Expr option \<Rightarrow> SILGenFunction
     \<Rightarrow> error + (nat \<times> nat \<times> nat \<times> Condition \<times> SILGenFunction)" where
  "visitForStmt_head S cond gen =
     (let (LoopBB, gen) = createBasicBlock gen;
          gen = emitBlockAt LoopBB gen;
          (IncBB, gen) = createBasicBlock gen;
          (EndBB, gen) = createBasicBlock gen;
          gen = push_back (S, JumpDest EndBB (getCleanupsDepth gen),
                              JumpDest IncBB (getCleanupsDepth gen)) gen
      in case (case cond of
                 Some C \<Rightarrow> emitCondition C False False [] gen
               | None \<Rightarrow> Inr (Condition (Some LoopBB) None None, gen)) of
           Inl e \<Rightarrow> Inl e
         | Inr (Cond, gen) \<Rightarrow> Inr (LoopBB, IncBB, EndBB, Cond, gen))"

definition visitForStmt_afterBody ::
  "Expr option \<Rightarrow> nat \<Rightarrow> nat \<Rightarrow> Condition \<Rightarrow> SILGenFunction \<Rightarrow> SILGenFunction" where
  "visitForStmt_afterBody increment LoopBB IncBB Cond gen =
     (let gen = emitOrDeleteBlock IncBB gen;
          gen = (case increment of
                   Some I \<Rightarrow>
                     if hasValidInsertionPoint gen
                     then (let (scope, gen) = pushScope gen;
                               gen = emitIgnoredExpr I gen
                           in popScope scope gen)
                     else gen
                 | None \<Rightarrow> gen);
          gen = (if hasValidInsertionPoint gen then createBranch LoopBB [] gen else gen)
      in exitTrue Cond gen)"

definition visitForStmt_end :: "nat \<Rightarrow> Condition \<Rightarrow> nat \<Rightarrow> SILGenFunction \<Rightarrow> SILGenFunction" where
  "visitForStmt_end EndBB Cond ForScope gen =
     (let gen = complete Cond gen;
          gen = emitOrDeleteBlock EndBB gen;
          gen = pop_back gen
      in popScope ForScope gen)"

definition visitForEachStmt_head ::
  "nat \<Rightarrow> Expr \<Rightarrow> SILGenFunction
     \<Rightarrow> error + (nat \<times> nat \<times> nat \<times> Condition \<times> SILGenFunction)" where
  "visitForEachStmt_head S generatorNext gen =
     (let (nextBuf, gen) = emitTemporaryAllocation gen;
          (LoopBB, gen) = createBasicBlock gen;
          gen = emitBlockAt LoopBB gen;
          (EndBB, gen) = createBasicBlock gen;
          gen = push_back (S, JumpDest EndBB (getCleanupsDepth gen),
                              JumpDest LoopBB (getCleanupsDepth gen)) gen;
          (InnerForScope, gen) = pushScope gen;
          gen = emitExprInto generatorNext (StackAddress nextBuf) gen;
          gen = popScope InnerForScope gen;
          (hasValue, gen) = emitDoesOptionalHaveValue nextBuf gen
      in case emitConditionValue hasValue False False [] gen of
           Inl e \<Rightarrow> Inl e
         | Inr (Cond, gen) \<Rightarrow> Inr (nextBuf, LoopBB, EndBB, Cond, gen))"

definition visitForEachStmt_enterBody ::
  "Pattern \<Rightarrow> nat \<Rightarrow> Condition \<Rightarrow> SILGenFunction \<Rightarrow> error + (nat \<times> SILGenFunction)" where
  "visitForEachStmt_enterBody pattern nextBuf Cond gen =
     (case enterTrue Cond gen of
        Inl e \<Rightarrow> Inl e
      | Inr gen \<Rightarrow>
          let (InnerForScope, gen) = pushScope gen;
              gen = emitPatternBindingInitialization pattern gen;
              gen = emitUncheckedGetOptionalValueFrom nextBuf pattern gen
          in Inr (InnerForScope, gen))"

definition visitForEachStmt_afterBody ::
  "nat \<Rightarrow> nat \<Rightarrow> Condition \<Rightarrow> SILGenFunction \<Rightarrow> SILGenFunction" where
  "visitForEachStmt_afterBody InnerForScope LoopBB Cond gen =
     (let gen = popScope InnerForScope gen;
          gen = (if hasValidInsertionPoint gen then createBranch LoopBB [] gen else gen)
      in exitTrue Cond gen)"

definition diagnose :: "Diagnostic \<Rightarrow> SILGenFunction \<Rightarrow> SILGenFunction" where
  "diagnose d gen = gen\<lparr>Diags := Diags gen @ [d]\<rparr>"

definition ReturnStmtType :: nat where "ReturnStmtType = 0"
definition ContinueStmtType :: nat where "ContinueStmtType = 1"
definition UnknownStmtType :: nat where "UnknownStmtType = 2"

definition diagnoseUnreachable :: "nat \<Rightarrow> ASTNode \<Rightarrow> SILGenFunction \<Rightarrow> SILGenFunction" where
  "diagnoseUnreachable StmtType ESD gen =
     (if StmtType \<noteq> UnknownStmtType
      then diagnose (unreachable_code_after_stmt ESD StmtType) gen
      else diagnose (unreachable_code ESD) gen)"

definition nextStmtType :: "nat \<Rightarrow> Stmt \<Rightarrow> nat" where
  "nextStmtType StmtType S =
     (let StmtType = (if isa_ContinueStmt S then ContinueStmtType else StmtType)
      in if isa_ReturnStmt S then ReturnStmtType else StmtType)"

text \<open>
  \<open>visit\<close> dispatches on the statement kind; \<open>visitElements\<close> is the loop of
  \<open>visitBraceStmt\<close> over the elements of a block, with the loop's variable \<open>StmtType\<close> as an
  argument. Its \<open>return\<close> in the loop ends the loop with the state as it is.
\<close>

fun visit :: "Stmt \<Rightarrow> SILGenFunction \<Rightarrow> error + SILGenFunction"
and visitElements :: "nat \<Rightarrow> ASTNode list \<Rightarrow> SILGenFunction \<Rightarrow> error + SILGenFunction"
where
  "visit (BraceStmt elements) gen =
     (let (BraceScope, gen) = pushScope gen
      in case visitElements UnknownStmtType elements gen of
           Inl e \<Rightarrow> Inl e
         | Inr gen \<Rightarrow> Inr (popScope BraceScope gen))"
| "visit (ReturnStmt result) gen = visitReturnStmt result gen"
| "visit (IfStmt cond thenStmt elseStmt) gen =
     (case visitIfStmt_cond cond gen of
        Inl e \<Rightarrow> Inl e
      | Inr (condBufferScope, trueScope, CleanupBlocks, gen) \<Rightarrow>
          (case visit thenStmt gen of
             Inl e \<Rightarrow> Inl e
           | Inr gen \<Rightarrow>
               let gen = popScope trueScope gen
               in (case elseStmt of
                     None \<Rightarrow> Inr (popScope condBufferScope (visitIfStmt_noElse CleanupBlocks gen))
                   | Some elseS \<Rightarrow>
                       let (ContBB, gen) = visitIfStmt_elseBegin CleanupBlocks gen
                       in (case visit elseS gen of
                             Inl e \<Rightarrow> Inl e
                           | Inr gen \<Rightarrow>
                               Inr (popScope condBufferScope (visitIfStmt_elseEnd ContBB gen))))))"
| "visit IfConfigStmt gen = Inr gen"
| "visit (WhileStmt S cond body) gen =
     (case visitWhileStmt_head S cond gen of
        Inl e \<Rightarrow> Inl e
      | Inr (condBufferScope, trueScope, LoopBB, CleanupBlocks, gen) \<Rightarrow>
          (case visit body gen of
             Inl e \<Rightarrow> Inl e
           | Inr gen \<Rightarrow>
               Inr (visitWhileStmt_tail condBufferScope trueScope LoopBB CleanupBlocks gen)))"
| "visit (DoWhileStmt S body cond) gen =
     (let (LoopBB, EndBB, CondBB, gen) = visitDoWhileStmt_head S gen
      in case visit body gen of
           Inl e \<Rightarrow> Inl e
         | Inr gen \<Rightarrow> visitDoWhileStmt_tail cond LoopBB EndBB CondBB gen)"
| "visit (ForStmt S decls initializer cond increment body) gen =
     (let (ForScope, gen) = visitForStmt_init decls initializer gen
      in if \<not> hasValidInsertionPoint gen then Inr (popScope ForScope gen)
         else
           case visitForStmt_head S cond gen of
             Inl e \<Rightarrow> Inl e
           | Inr (LoopBB, IncBB, EndBB, Cond, gen) \<Rightarrow>
               (case (if hasTrue Cond
                      then
                        (case enterTrue Cond gen of
                           Inl e \<Rightarrow> Inl e
                         | Inr gen \<Rightarrow>
                             (case visit body gen of
                                Inl e \<Rightarrow> Inl e
                              | Inr gen \<Rightarrow>
                                  Inr (visitForStmt_afterBody increment LoopBB IncBB Cond gen)))
                      else Inr gen) of
                  Inl e \<Rightarrow> Inl e
                | Inr gen \<Rightarrow> Inr (visitForStmt_end EndBB Cond ForScope gen)))"
| "visit (ForEachStmt S generator generatorNext pattern body) gen =
     (let (OuterForScope, gen) = pushScope gen;
          gen = visitDecl generator gen
      in if \<not> hasValidInsertionPoint gen then Inr (popScope OuterForScope gen)
         else
           case visitForEachStmt_head S generatorNext gen of
             Inl e \<Rightarrow> Inl e
           | Inr (nextBuf, LoopBB, EndBB, Cond, gen) \<Rightarrow>
               (case (if hasTrue Cond
                      then
                        (case visitForEachStmt_enterBody pattern nextBuf Cond gen of
                           Inl e \<Rightarrow> Inl e
                         | Inr (InnerForScope, gen) \<Rightarrow>
                             (case visit body gen of
                                Inl e \<Rightarrow> Inl e
                              | Inr gen \<Rightarrow>
                                  Inr (visitForEachStmt_afterBody InnerForScope LoopBB Cond gen)))
                      else Inr gen) of
                  Inl e \<Rightarrow> Inl e
                | Inr gen \<Rightarrow> Inr (visitForStmt_end EndBB Cond OuterForScope gen)))"
| "visit (BreakStmt target) gen = visitBreakStmt target gen"
| "visit (ContinueStmt target) gen = visitContinueStmt target gen"
| "visit CaseStmt gen = Inl Unreachable"
| "visit FailStmt gen = visitFailStmt gen"
| "visitElements StmtType [] gen = Inr gen"
| "visitElements StmtType (NodeStmt S # elements) gen =
     (if isa_IfConfigStmt S then visitElements StmtType elements gen
      else if \<not> hasValidInsertionPoint gen
      then Inr (diagnoseUnreachable StmtType (NodeStmt S) gen)
      else
        case visit S gen of
          Inl e \<Rightarrow> Inl e
        | Inr gen \<Rightarrow> visitElements (nextStmtType StmtType S) elements gen)"
| "visitElements StmtType (NodeExpr E # elements) gen =
     (if \<not> hasValidInsertionPoint gen
      then Inr (diagnoseUnreachable StmtType (NodeExpr E) gen)
      else visitElements StmtType elements (emitIgnoredExpr E gen))"
| "visitElements StmtType (NodeDecl D # elements) gen =
     (if \<not> hasValidInsertionPoint gen
      then Inr (diagnoseUnreachable StmtType (NodeDecl D) gen)
      else visitElements StmtType elements (visitDecl D gen))"

subsection \<open>A state to start from\<close>

text \<open>
  The state in which the lowering of a function body starts: the entry block \<open>0\<close> is the
  insertion block, block \<open>1\<close> is the return destination, nothing else exists yet.
\<close>

definition entryGen :: SILGenFunction where
  "entryGen =
     \<lparr>blocks = (\<lambda>_. \<lparr>insts = [], bbargs = []\<rparr>), layout = [0, 1], next_block = 2,
      next_slot = 0, InsertionPoint = Some 0, CleanupsDepth = 0, BreakContinueDestStack = [],
      ReturnDest = JumpDest 1 0, FailDest = None, FailSelfDecl = None,
      VarLocs = (\<lambda>_. \<lparr>loc_box = None, loc_value = FunctionArgument 0\<rparr>),
      IndirectReturnAddress = None, Diags = []\<rparr>"

subsection \<open>What a lowering leaves alone\<close>

text \<open>
  \<open>frame0\<close>: the return and failure destinations are the same and the two counters have
  not gone back. \<open>preserves\<close>: moreover the break/continue target stack is the same.
\<close>

definition frame0 :: "SILGenFunction \<Rightarrow> SILGenFunction \<Rightarrow> bool" where
  "frame0 gen gen' \<longleftrightarrow>
     ReturnDest gen' = ReturnDest gen \<and> FailDest gen' = FailDest gen \<and>
     next_block gen \<le> next_block gen' \<and> next_slot gen \<le> next_slot gen'"

definition preserves :: "SILGenFunction \<Rightarrow> SILGenFunction \<Rightarrow> bool" where
  "preserves gen gen' \<longleftrightarrow>
     frame0 gen gen' \<and> BreakContinueDestStack gen' = BreakContinueDestStack gen"

subsection \<open>The diagnostic for unreachable code\<close>

text \<open>
  The diagnostic \<open>visitBraceStmt\<close> reports for the element \<open>ESD\<close> when the statement lowered
  just before it was \<open>S\<close>: after a \<open>return\<close>, after a \<open>continue\<close>, or the generic one.
\<close>

definition unreachableDiagnostic :: "Stmt \<Rightarrow> ASTNode \<Rightarrow> Diagnostic" where
  "unreachableDiagnostic S ESD =
     (if isa_ReturnStmt S then unreachable_code_after_stmt ESD ReturnStmtType
      else if isa_ContinueStmt S then unreachable_code_after_stmt ESD ContinueStmtType
      else unreachable_code ESD)"

subsection \<open>Cleanup chains\<close>

text \<open>
  Reading the graph. \<open>destroyedSlots\<close> are the slots a block's instructions destroy, in
  order; \<open>branchTarget\<close> is the block an unconditional branch at the end of a block goes
  to; \<open>runCleanups\<close> follows the unconditional branches from a block and returns the slots
  destroyed on the way and the block at whose end the run stops (\<open>None\<close> when the fuel is
  used up before that).
\<close>

primrec destroyedSlots :: "SILInstruction list \<Rightarrow> nat list" where
  "destroyedSlots [] = []"
| "destroyedSlots (i # is) =
     (case i of DestroyAddrInst addr \<Rightarrow> [addr] | _ \<Rightarrow> []) @ destroyedSlots is"



text \<open>
  \<open>cleanupChain gen CBs slots\<close>: every block of \<open>CBs\<close> but the last holds the destroy of
  its slot and the branch to the next block, and nothing else; the last block holds at most
  one destroy and no branch. \<open>slots\<close> are the slots in the order of the blocks.
\<close>

fun cleanupChain :: "SILGenFunction \<Rightarrow> nat list \<Rightarrow> nat list \<Rightarrow> bool" where
  "cleanupChain gen [] slots = False"
| "cleanupChain gen [bb] slots =
     (insts (blocks gen bb) = map DestroyAddrInst slots \<and> length slots \<le> 1)"
| "cleanupChain gen (bb # next # CBs) slots =
     (case slots of
        [] \<Rightarrow> False
      | s # slots' \<Rightarrow>
          insts (blocks gen bb) = [DestroyAddrInst s, BranchInst next []] \<and>
          cleanupChain gen (next # CBs) slots')"

text \<open>The pattern bindings of a condition list, in order.\<close>

fun bindings :: "StmtConditionElement list \<Rightarrow> PatternBindingDecl list" where
  "bindings [] = []"
| "bindings (CondExpr E # C) = bindings C"
| "bindings (CondBinding CB # C) = CB # bindings C"

text \<open>
  \<open>wf_layout\<close>: the blocks of the function were given out by \<open>createBasicBlock\<close>, and the
  insertion block is a block of the function.
\<close>

definition wf_layout :: "SILGenFunction \<Rightarrow> bool" where
  "wf_layout gen \<longleftrightarrow>
     (\<forall>b \<in> set (layout gen). b < next_block gen) \<and>
     (case InsertionPoint gen of None \<Rightarrow> True | Some b \<Rightarrow> b \<in> set (layout gen))"

text \<open>
  The invariant of the loop of \<open>emitStmtCondition\<close>: \<open>CleanupBlocks\<close> starts with the
  failure block \<open>b0\<close> and lists blocks in creation order, read backwards it is a cleanup
  chain for the slots of the first \<open>nextBuffer\<close> buffers, the insertion block is not a
  cleanup block, and as long as nothing branches to the last cleanup block, it is the
  empty failure block.
\<close>

definition condInv ::
  "nat \<Rightarrow> ConditionalBinding list \<Rightarrow> nat list \<Rightarrow> nat \<Rightarrow> SILGenFunction \<Rightarrow> bool" where
  "condInv b0 buffers CB nb gen \<longleftrightarrow>
     CB \<noteq> [] \<and> hd CB = b0 \<and> sorted_wrt (<) CB \<and> (\<forall>b \<in> set CB. b < next_block gen) \<and>
     nb \<le> length buffers \<and>
     cleanupChain gen (rev CB) (rev (map OptAddr (take nb buffers))) \<and>
     (\<exists>ip. InsertionPoint gen = Some ip \<and> ip \<notin> set CB \<and> ip \<in> set (layout gen) \<and>
        ip < next_block gen) \<and>
     (pred_empty (last CB) gen \<longrightarrow> length CB = 1 \<and> insts (blocks gen (last CB)) = [])"




subsection \<open>Graphs built so far, and graphs built from them\<close>

text \<open>
  \<open>slotsOf\<close> are the storage slots an instruction allocates or destroys. \<open>destBlocks\<close> are
  the blocks of the jump destinations in force: of \<open>return\<close>, of \<open>fail\<close>, and of the \<open>break\<close>
  and \<open>continue\<close> of the enclosing loops.
\<close>

fun slotsOf :: "SILInstruction \<Rightarrow> nat list" where
  "slotsOf (DestroyAddrInst addr) = [addr]"
| "slotsOf (AllocStackInst addr) = [addr]"
| "slotsOf _ = []"

definition destBlocks :: "SILGenFunction \<Rightarrow> nat list" where
  "destBlocks gen =
     getBlock (ReturnDest gen) #
     (case FailDest gen of None \<Rightarrow> [] | Some d \<Rightarrow> [getBlock d]) @
     concat (map (\<lambda>elt. [getBlock (fst (snd elt)), getBlock (snd (snd elt))])
               (BreakContinueDestStack gen))"

text \<open>
  \<open>wf_gen\<close>: the state is one the lowering can be in. The blocks of the function and the
  jump destinations were given out by \<open>createBasicBlock\<close>, and every instruction of a block
  given out so far (in the function or erased from it) names only such blocks and only
  slots given out by \<open>emitTemporaryAllocation\<close>.
\<close>

definition inst_ok :: "SILGenFunction \<Rightarrow> SILInstruction \<Rightarrow> bool" where
  "inst_ok gen i \<longleftrightarrow>
     (\<forall>t \<in> set (successors i). t < next_block gen) \<and>
     (\<forall>s \<in> set (slotsOf i). s < next_slot gen)"

definition wf_gen :: "SILGenFunction \<Rightarrow> bool" where
  "wf_gen gen \<longleftrightarrow>
     wf_layout gen \<and>
     (\<forall>b \<in> set [0..<next_block gen]. \<forall>i \<in> set (insts (blocks gen b)). inst_ok gen i) \<and>
     (\<forall>t \<in> set (destBlocks gen). t < next_block gen)"

text \<open>
  \<open>extends base gen\<close>: \<open>gen\<close> was built from \<open>base\<close> by lowering. An instruction that is new
  since \<open>base\<close> branches only to a jump destination of \<open>base\<close> or to a block created since,
  and names only slots allocated since (\<open>fresh_inst\<close>). A block of \<open>base\<close> keeps its
  instructions and gets new ones at its end only if it was the insertion block of \<open>base\<close>;
  the blocks created since hold new instructions only (\<open>grown\<close>). The blocks of \<open>base\<close> are
  still blocks of the function, the other blocks of the function were created since, the
  jump destinations that are not those of \<open>base\<close> are blocks created since, and the
  insertion block is that of \<open>base\<close> or a block created since, when there is one.
\<close>

definition fresh_inst :: "SILGenFunction \<Rightarrow> SILInstruction \<Rightarrow> bool" where
  "fresh_inst base i \<longleftrightarrow>
     (\<forall>t \<in> set (successors i). t \<in> set (destBlocks base) \<or> next_block base \<le> t) \<and>
     (\<forall>s \<in> set (slotsOf i). next_slot base \<le> s)"

definition grown :: "SILGenFunction \<Rightarrow> SILGenFunction \<Rightarrow> nat \<Rightarrow> bool" where
  "grown base gen b \<longleftrightarrow>
     (if b < next_block base
      then \<exists>new. insts (blocks gen b) = insts (blocks base b) @ new \<and>
             (\<forall>i \<in> set new. fresh_inst base i) \<and>
             (new \<noteq> [] \<longrightarrow> InsertionPoint base = Some b)
      else \<forall>i \<in> set (insts (blocks gen b)). fresh_inst base i)"

definition extends :: "SILGenFunction \<Rightarrow> SILGenFunction \<Rightarrow> bool" where
  "extends base gen \<longleftrightarrow>
     wf_gen base \<and> wf_gen gen \<and> frame0 base gen \<and>
     (\<forall>t \<in> set (destBlocks gen). t \<in> set (destBlocks base) \<or> next_block base \<le> t) \<and>
     set (layout base) \<subseteq> set (layout gen) \<and>
     (\<forall>b \<in> set (layout gen). b \<in> set (layout base) \<or> next_block base \<le> b) \<and>
     (\<forall>b < next_block gen. grown base gen b) \<and>
     (InsertionPoint gen = None \<or> InsertionPoint gen = InsertionPoint base \<or>
      (\<exists>b. InsertionPoint gen = Some b \<and> next_block base \<le> b))"

subsection \<open>The tests of a condition and where they fail to\<close>






section \<open>Properties\<close>

subsection \<open>The fields after each builder operation\<close>

lemma createBasicBlock_eq:
  "createBasicBlock gen =
     (next_block gen,
      gen\<lparr>blocks := (blocks gen)(next_block gen := \<lparr>insts = [], bbargs = []\<rparr>),
          layout := layout gen @ [next_block gen],
          next_block := Suc (next_block gen)\<rparr>)"
  by (simp add: createBasicBlock_def Let_def)

lemma emitTemporaryAllocation_eq:
  "emitTemporaryAllocation gen =
     (next_slot gen, (insertInst (AllocStackInst (next_slot gen)) gen)\<lparr>next_slot := Suc (next_slot gen)\<rparr>)"
  by (simp add: emitTemporaryAllocation_def Let_def)

lemmas prim_defs = hasValidInsertionPoint_def clearInsertionPoint_def createBasicBlock_eq
  appendInst_def prependInst_def addArgument_def insertTerminator_def
  createBranch_def createCondBranch_def emitBlock_def eraseFromParent_def
  getCleanupsDepth_def pushScope_def popScope_def emitRValue_def emitExprInto_def
  emitIgnoredExpr_def visitDecl_def emitDoesOptionalHaveValue_def
  emitPatternBindingInitialization_def emitUncheckedGetOptionalValueFrom_def
  emitTemporaryAllocation_eq emitTemporary_def push_back_def pop_back_def diagnose_def

lemma insertInst_fields [simp]:
  "layout (insertInst i gen) = layout gen"
  "next_block (insertInst i gen) = next_block gen"
  "next_slot (insertInst i gen) = next_slot gen"
  "InsertionPoint (insertInst i gen) = InsertionPoint gen"
  "CleanupsDepth (insertInst i gen) = CleanupsDepth gen"
  "BreakContinueDestStack (insertInst i gen) = BreakContinueDestStack gen"
  "ReturnDest (insertInst i gen) = ReturnDest gen"
  "FailDest (insertInst i gen) = FailDest gen"
  "Diags (insertInst i gen) = Diags gen"
  by (simp_all add: insertInst_def appendInst_def split: option.splits)

lemma emitBlockAt_fields [simp]:
  "next_block (emitBlockAt bb gen) = next_block gen"
  "next_slot (emitBlockAt bb gen) = next_slot gen"
  "InsertionPoint (emitBlockAt bb gen) = Some bb"
  "CleanupsDepth (emitBlockAt bb gen) = CleanupsDepth gen"
  "BreakContinueDestStack (emitBlockAt bb gen) = BreakContinueDestStack gen"
  "ReturnDest (emitBlockAt bb gen) = ReturnDest gen"
  "FailDest (emitBlockAt bb gen) = FailDest gen"
  "Diags (emitBlockAt bb gen) = Diags gen"
  "layout (emitBlockAt bb gen) = filter (\<lambda>b. b \<noteq> bb) (layout gen) @ [bb]"
  by (simp_all add: emitBlockAt_def prim_defs)

lemma emitOrDeleteBlock_fields [simp]:
  "next_block (emitOrDeleteBlock bb gen) = next_block gen"
  "next_slot (emitOrDeleteBlock bb gen) = next_slot gen"
  "CleanupsDepth (emitOrDeleteBlock bb gen) = CleanupsDepth gen"
  "BreakContinueDestStack (emitOrDeleteBlock bb gen) = BreakContinueDestStack gen"
  "ReturnDest (emitOrDeleteBlock bb gen) = ReturnDest gen"
  "FailDest (emitOrDeleteBlock bb gen) = FailDest gen"
  "Diags (emitOrDeleteBlock bb gen) = Diags gen"
  by (simp_all add: emitOrDeleteBlock_def prim_defs)

lemma exitTrue_fields [simp]:
  "next_block (exitTrue C gen) = next_block gen"
  "next_slot (exitTrue C gen) = next_slot gen"
  "layout (exitTrue C gen) = layout gen"
  "CleanupsDepth (exitTrue C gen) = CleanupsDepth gen"
  "BreakContinueDestStack (exitTrue C gen) = BreakContinueDestStack gen"
  "ReturnDest (exitTrue C gen) = ReturnDest gen"
  "FailDest (exitTrue C gen) = FailDest gen"
  "Diags (exitTrue C gen) = Diags gen"
  by (simp_all add: exitTrue_def prim_defs split: option.splits)

lemma complete_fields [simp]:
  "next_block (complete C gen) = next_block gen"
  "next_slot (complete C gen) = next_slot gen"
  "CleanupsDepth (complete C gen) = CleanupsDepth gen"
  "BreakContinueDestStack (complete C gen) = BreakContinueDestStack gen"
  "ReturnDest (complete C gen) = ReturnDest gen"
  "FailDest (complete C gen) = FailDest gen"
  "Diags (complete C gen) = Diags gen"
  "blocks (complete C gen) = blocks gen"
  by (simp_all add: complete_def prim_defs split: option.splits)

lemma fold_visitDecl_fields [simp]:
  "layout (fold visitDecl decls gen) = layout gen"
  "next_block (fold visitDecl decls gen) = next_block gen"
  "next_slot (fold visitDecl decls gen) = next_slot gen"
  "InsertionPoint (fold visitDecl decls gen) = InsertionPoint gen"
  "CleanupsDepth (fold visitDecl decls gen) = CleanupsDepth gen"
  "BreakContinueDestStack (fold visitDecl decls gen) = BreakContinueDestStack gen"
  "ReturnDest (fold visitDecl decls gen) = ReturnDest gen"
  "FailDest (fold visitDecl decls gen) = FailDest gen"
  "Diags (fold visitDecl decls gen) = Diags gen"
  by (induction decls arbitrary: gen; simp add: visitDecl_def)+

lemma fold_addArgument_fields [simp]:
  "next_block (fold (addArgument bb) tys gen) = next_block gen"
  "layout (fold (addArgument bb) tys gen) = layout gen"
  "InsertionPoint (fold (addArgument bb) tys gen) = InsertionPoint gen"
  "insts (blocks (fold (addArgument bb) tys gen) b) = insts (blocks gen b)"
  "next_slot (fold (addArgument bb) tys gen) = next_slot gen"
  "BreakContinueDestStack (fold (addArgument bb) tys gen) = BreakContinueDestStack gen"
  "ReturnDest (fold (addArgument bb) tys gen) = ReturnDest gen"
  "FailDest (fold (addArgument bb) tys gen) = FailDest gen"
  "CleanupsDepth (fold (addArgument bb) tys gen) = CleanupsDepth gen"
  "Diags (fold (addArgument bb) tys gen) = Diags gen"
  by (induction tys arbitrary: gen; simp add: addArgument_def)+

lemma emitCleanupBlocks_fields [simp]:
  "next_block (emitCleanupBlocks CBs gen) = next_block gen"
  "next_slot (emitCleanupBlocks CBs gen) = next_slot gen"
  "BreakContinueDestStack (emitCleanupBlocks CBs gen) = BreakContinueDestStack gen"
  "ReturnDest (emitCleanupBlocks CBs gen) = ReturnDest gen"
  "FailDest (emitCleanupBlocks CBs gen) = FailDest gen"
  "CleanupsDepth (emitCleanupBlocks CBs gen) = CleanupsDepth gen"
  "Diags (emitCleanupBlocks CBs gen) = Diags gen"
  "blocks (emitCleanupBlocks CBs gen) = blocks gen"
  unfolding emitCleanupBlocks_def
  by (induction CBs arbitrary: gen; simp add: prim_defs)+

subsection \<open>Condition lowering without false code\<close>

text \<open>
  C6. A call of \<open>emitCondition\<close> with \<open>hasFalseCode = false\<close> that returns creates two
  blocks only, the continuation block and the true block, in this order; the \<open>Condition\<close>
  it returns has no false block; and the conditional branch it leaves at the end of the
  insertion block has the continuation block as the destination of the false path: the
  second target, or the first when \<open>invertValue\<close> swaps the targets.
\<close>

theorem emitCondition_no_false_block:
  assumes "emitConditionValue V False invertValue contArgs gen = Inr (Cond, gen')"
  shows "getFalseBB Cond = None \<and>
     getContBB Cond = Some (next_block gen) \<and>
     getTrueBB Cond = Some (Suc (next_block gen)) \<and>
     layout gen' = layout gen @ [next_block gen, Suc (next_block gen)] \<and>
     next_block gen' = Suc (Suc (next_block gen)) \<and>
     (\<exists>bb. InsertionPoint gen = Some bb \<and>
        last (insts (blocks gen' bb)) =
          (if invertValue then CondBranchInst V (next_block gen) (Suc (next_block gen))
           else CondBranchInst V (Suc (next_block gen)) (next_block gen)))"
  using assms
  by (auto simp: emitConditionValue_def prim_defs insertInst_def Let_def
      split: if_splits prod.splits option.splits)

theorem emitCondition_no_false_block_witness:
  "emitConditionValue (RValueOf (Expr 0 False)) False False [] entryGen =
     Inr (Condition (Some 3) None (Some 2),
          createCondBranch (RValueOf (Expr 0 False)) 3 2
            (snd (createBasicBlock (snd (createBasicBlock entryGen))))) \<and>
   getFalseBB (Condition (Some 3) None (Some 2)) = None \<and>
   getContBB (Condition (Some 3) None (Some 2)) = Some (next_block entryGen)"
proof -
  have h: "emitConditionValue (RValueOf (Expr 0 False)) False False [] entryGen =
     Inr (Condition (Some 3) None (Some 2),
          createCondBranch (RValueOf (Expr 0 False)) 3 2
            (snd (createBasicBlock (snd (createBasicBlock entryGen)))))"
    by (simp add: emitConditionValue_def prim_defs insertInst_def entryGen_def Let_def)
  from emitCondition_no_false_block [OF h] h show ?thesis by simp
qed

subsection \<open>The target stack, the destinations and the counters\<close>

lemma frame0_refl [simp]: "frame0 gen gen" by (simp add: frame0_def)
lemma preserves_refl [simp]: "preserves gen gen" by (simp add: preserves_def)
lemma frame0_trans: "frame0 a b \<Longrightarrow> frame0 b c \<Longrightarrow> frame0 a c" by (auto simp: frame0_def)
lemma preserves_trans [trans]: "preserves a b \<Longrightarrow> preserves b c \<Longrightarrow> preserves a c"
  by (auto simp: preserves_def intro: frame0_trans)
lemmas pres_defs = preserves_def frame0_def

lemma emitConditionalBindingBuffers_preserves:
  "emitConditionalBindingBuffers cond gen = Inr (buffers, gen') \<Longrightarrow> preserves gen gen'"
proof (induction cond gen arbitrary: buffers gen' rule: emitConditionalBindingBuffers.induct)
  case (1 gen)
  then show ?case by simp
next
  case (2 E cond gen)
  then show ?case by simp
next
  case (3 CB cond gen)
  from "3.prems" obtain bs where
    "emitConditionalBindingBuffers cond (snd (emitTemporary gen)) = Inr (bs, gen')"
    and ok: "isConditional CB \<and> getInit CB \<noteq> None"
    by (auto split: if_splits sum.splits)
  with "3.IH" have "preserves (snd (emitTemporary gen)) gen'" by blast
  moreover have "preserves gen (snd (emitTemporary gen))"
    by (simp add: prim_defs pres_defs Let_def)
  ultimately show ?case by (rule preserves_trans [rotated])
qed

lemma emitConditionalPatternBindings_preserves:
  "preserves gen (emitConditionalPatternBindings buffers gen)"
proof (induction buffers arbitrary: gen)
  case Nil
  then show ?case by simp
next
  case (Cons CB buffers)
  have "preserves gen (emitConditionalPatternBinding CB gen)"
    by (simp add: emitConditionalPatternBinding_def prim_defs pres_defs Let_def)
  then show ?case
    using Cons.IH by (auto intro: preserves_trans)
qed

lemma emitStmtCondition_expr_preserves:
  "preserves gen (emitStmtCondition_expr expr CleanupBlocks gen)"
  by (simp add: emitStmtCondition_expr_def prim_defs pres_defs Let_def)

lemma emitStmtCondition_binding_preserves:
  "emitStmtCondition_binding binding buffers CleanupBlocks nextBuffer gen = Inr (CBs, gen')
     \<Longrightarrow> preserves gen gen'"
  by (auto simp: emitStmtCondition_binding_def prim_defs pres_defs Let_def
      split: if_splits option.splits)

lemma emitStmtCondition_loop_preserves:
  "emitStmtCondition_loop C buffers CleanupBlocks nextBuffer gen = Inr (CBs, gen')
     \<Longrightarrow> preserves gen gen'"
proof (induction C buffers CleanupBlocks nextBuffer gen arbitrary: CBs gen'
    rule: emitStmtCondition_loop.induct)
  case (1 buffers CleanupBlocks nextBuffer gen)
  then show ?case by simp
next
  case (2 expr C buffers CleanupBlocks nextBuffer gen)
  then show ?case
    by (auto intro: preserves_trans [OF emitStmtCondition_expr_preserves])
next
  case (3 binding C buffers CleanupBlocks nextBuffer gen)
  then show ?case
    by (auto split: sum.splits intro: preserves_trans dest: emitStmtCondition_binding_preserves)
qed

lemma emitStmtCondition_preserves:
  "emitStmtCondition C buffers gen = Inr (CBs, gen') \<Longrightarrow> preserves gen gen'"
  by (auto simp: emitStmtCondition_def Let_def createBasicBlock_eq
      split: if_splits sum.splits dest!: emitStmtCondition_loop_preserves)
    (simp add: pres_defs)

lemma emitBranchAndCleanups_preserves:
  "emitBranchAndCleanups dest args gen = Inr gen' \<Longrightarrow>
     preserves gen gen' \<and> InsertionPoint gen' = None"
  by (auto simp: emitBranchAndCleanups_def prim_defs pres_defs split: if_splits)

lemma visitReturnStmt_preserves:
  "visitReturnStmt result gen = Inr gen' \<Longrightarrow> preserves gen gen' \<and> InsertionPoint gen' = None"
  by (auto simp: visitReturnStmt_def emitReturnExpr_def Let_def prim_defs
      split: option.splits dest!: emitBranchAndCleanups_preserves)
    (simp_all add: pres_defs)

lemma visitBreakStmt_preserves:
  "visitBreakStmt target gen = Inr gen' \<Longrightarrow> preserves gen gen' \<and> InsertionPoint gen' = None"
  by (auto simp: visitBreakStmt_def emitBreakOutOf_def
      split: option.splits dest!: emitBranchAndCleanups_preserves)

lemma visitContinueStmt_preserves:
  "visitContinueStmt target gen = Inr gen' \<Longrightarrow> preserves gen gen' \<and> InsertionPoint gen' = None"
  by (auto simp: visitContinueStmt_def
      split: option.splits dest!: emitBranchAndCleanups_preserves)

lemma visitFailStmt_preserves:
  "visitFailStmt gen = Inr gen' \<Longrightarrow> preserves gen gen' \<and> InsertionPoint gen' = None"
  by (auto simp: visitFailStmt_def Let_def
      split: option.splits if_splits dest!: emitBranchAndCleanups_preserves)
    (simp_all add: pres_defs)

lemma emitConditionValue_preserves:
  "emitConditionValue V hasFalseCode invertValue contArgs gen = Inr (Cond, gen')
     \<Longrightarrow> preserves gen gen'"
  by (auto simp: emitConditionValue_def prim_defs pres_defs Let_def fold_addArgument_fields
      split: if_splits)

lemma emitCondition_preserves:
  "emitCondition E hasFalseCode invertValue contArgs gen = Inr (Cond, gen')
     \<Longrightarrow> preserves gen gen'"
  by (auto simp: emitCondition_def Let_def prim_defs split: if_splits
      dest!: emitConditionValue_preserves)
    (simp add: pres_defs)

lemma enterTrue_preserves: "enterTrue Cond gen = Inr gen' \<Longrightarrow> preserves gen gen'"
  by (auto simp: enterTrue_def prim_defs pres_defs split: option.splits)

lemma exitTrue_preserves: "preserves gen (exitTrue Cond gen)"
  by (auto simp: exitTrue_def prim_defs pres_defs split: option.splits)

lemma complete_preserves: "preserves gen (complete Cond gen)"
  by (auto simp: complete_def prim_defs pres_defs split: option.splits)

lemma emitOrDeleteBlock_preserves: "preserves gen (emitOrDeleteBlock BB gen)"
  by (auto simp: emitOrDeleteBlock_def prim_defs pres_defs)

lemma popScope_preserves: "preserves gen (popScope d gen)"
  by (simp add: prim_defs pres_defs)

lemma visitIfStmt_cond_preserves:
  "visitIfStmt_cond cond gen = Inr (condBufferScope, trueScope, CleanupBlocks, gen')
     \<Longrightarrow> preserves gen gen'"
proof -
  assume h: "visitIfStmt_cond cond gen = Inr (condBufferScope, trueScope, CleanupBlocks, gen')"
  then obtain buffers g1 g2 where
    b: "emitConditionalBindingBuffers cond (snd (pushScope gen)) = Inr (buffers, g1)"
    and c: "emitStmtCondition cond buffers g1 = Inr (CleanupBlocks, g2)"
    and g: "gen' = emitConditionalPatternBindings buffers (snd (pushScope g2))"
    by (auto simp: visitIfStmt_cond_def Let_def split: prod.splits sum.splits)
  have "preserves gen (snd (pushScope gen))" "preserves g2 (snd (pushScope g2))"
    by (simp_all add: prim_defs pres_defs)
  with emitConditionalBindingBuffers_preserves [OF b] emitStmtCondition_preserves [OF c]
    emitConditionalPatternBindings_preserves [of "snd (pushScope g2)" buffers] g
  show ?thesis by (blast intro: preserves_trans)
qed

lemma visitIfStmt_noElse_preserves: "preserves gen (visitIfStmt_noElse CleanupBlocks gen)"
  by (simp add: visitIfStmt_noElse_def Let_def prim_defs pres_defs split: prod.splits)

lemma visitIfStmt_elseBegin_preserves:
  "visitIfStmt_elseBegin CleanupBlocks gen = (ContBB, gen') \<Longrightarrow> preserves gen gen'"
  by (auto simp: visitIfStmt_elseBegin_def Let_def prim_defs pres_defs)

lemma visitIfStmt_elseEnd_preserves: "preserves gen (visitIfStmt_elseEnd ContBB gen)"
  by (simp add: visitIfStmt_elseEnd_def Let_def prim_defs pres_defs)

lemma visitWhileStmt_head_frame:
  assumes "visitWhileStmt_head S cond gen =
      Inr (condBufferScope, trueScope, LoopBB, CleanupBlocks, gen')"
  shows "frame0 gen gen' \<and>
     (\<exists>d. BreakContinueDestStack gen' = BreakContinueDestStack gen @
        [(S, JumpDest (hd CleanupBlocks) d, JumpDest LoopBB d)])"
proof -
  from assms obtain buffers g1 g2 where
    b: "emitConditionalBindingBuffers cond (snd (pushScope gen)) = Inr (buffers, g1)"
    and c: "emitStmtCondition cond buffers
              (emitBlockAt LoopBB (snd (createBasicBlock g1))) = Inr (CleanupBlocks, g2)"
    and g: "gen' = emitConditionalPatternBindings buffers
              (snd (pushScope (push_back (S, JumpDest (hd CleanupBlocks) (getCleanupsDepth g2),
                 JumpDest LoopBB (getCleanupsDepth g2)) g2)))"
    by (auto simp: visitWhileStmt_head_def Let_def split: prod.splits sum.splits)
  have 1: "preserves gen (snd (pushScope gen))"
    by (simp add: prim_defs pres_defs)
  have 2: "preserves g1 (emitBlockAt LoopBB (snd (createBasicBlock g1)))"
    by (simp add: prim_defs pres_defs Let_def)
  from 1 emitConditionalBindingBuffers_preserves [OF b] 2 emitStmtCondition_preserves [OF c]
  have 3: "preserves gen g2" by (blast intro: preserves_trans)
  let ?p = "snd (pushScope (push_back (S, JumpDest (hd CleanupBlocks) (getCleanupsDepth g2),
                 JumpDest LoopBB (getCleanupsDepth g2)) g2))"
  have 4: "frame0 g2 ?p \<and> BreakContinueDestStack ?p = BreakContinueDestStack g2 @
        [(S, JumpDest (hd CleanupBlocks) (getCleanupsDepth g2), JumpDest LoopBB (getCleanupsDepth g2))]"
    by (simp add: prim_defs pres_defs)
  from 3 4 emitConditionalPatternBindings_preserves [of ?p buffers] g
  show ?thesis
    unfolding pres_defs by auto
qed

lemma visitWhileStmt_tail_frame:
  "frame0 gen (visitWhileStmt_tail condBufferScope trueScope LoopBB CleanupBlocks gen) \<and>
   BreakContinueDestStack (visitWhileStmt_tail condBufferScope trueScope LoopBB CleanupBlocks gen)
     = butlast (BreakContinueDestStack gen)"
  by (simp add: visitWhileStmt_tail_def Let_def prim_defs pres_defs)

lemma visitDoWhileStmt_head_frame:
  "visitDoWhileStmt_head S gen = (LoopBB, EndBB, CondBB, gen') \<Longrightarrow>
   frame0 gen gen' \<and>
   (\<exists>d. BreakContinueDestStack gen' = BreakContinueDestStack gen @
        [(S, JumpDest EndBB d, JumpDest CondBB d)])"
  by (auto simp: visitDoWhileStmt_head_def Let_def prim_defs pres_defs)

lemma visitDoWhileStmt_cond_preserves:
  assumes "visitDoWhileStmt_cond cond LoopBB gen = Inr gen'"
  shows "preserves gen gen'"
proof -
  from assms obtain Cond c1 c2 where
    a: "emitCondition cond False False [] gen = Inr (Cond, c1)"
    and b: "enterTrue Cond c1 = Inr c2"
    and c: "gen' = complete Cond (exitTrue Cond
              (if hasValidInsertionPoint c2 then createBranch LoopBB [] c2 else c2))"
    by (auto simp: visitDoWhileStmt_cond_def Let_def split: sum.splits)
  have "preserves c2 (if hasValidInsertionPoint c2 then createBranch LoopBB [] c2 else c2)"
    by (simp add: prim_defs pres_defs)
  with emitCondition_preserves [OF a] enterTrue_preserves [OF b] c
  show ?thesis
    by (blast intro: preserves_trans exitTrue_preserves complete_preserves)
qed

lemma visitDoWhileStmt_tail_frame:
  assumes "visitDoWhileStmt_tail cond LoopBB EndBB CondBB gen = Inr gen'"
  shows "frame0 gen gen' \<and> BreakContinueDestStack gen' = butlast (BreakContinueDestStack gen)"
proof -
  let ?g1 = "emitOrDeleteBlock CondBB gen"
  from assms obtain g2 where
    m: "(if hasValidInsertionPoint ?g1 then visitDoWhileStmt_cond cond LoopBB ?g1
         else Inr ?g1) = Inr g2"
    and g: "gen' = pop_back (emitOrDeleteBlock EndBB g2)"
    by (auto simp: visitDoWhileStmt_tail_def Let_def split: sum.splits)
  from m have "preserves ?g1 g2"
    by (auto split: if_splits dest: visitDoWhileStmt_cond_preserves)
  with emitOrDeleteBlock_preserves [of gen CondBB] emitOrDeleteBlock_preserves [of g2 EndBB]
  have "preserves gen (emitOrDeleteBlock EndBB g2)"
    by (blast intro: preserves_trans)
  with g show ?thesis by (simp add: pres_defs pop_back_def)
qed

lemma visitForStmt_init_preserves:
  "visitForStmt_init decls initializer gen = (ForScope, gen') \<Longrightarrow> preserves gen gen'"
  by (auto simp: visitForStmt_init_def Let_def prim_defs pres_defs split: option.splits)

lemma visitForStmt_head_frame:
  assumes "visitForStmt_head S cond gen = Inr (LoopBB, IncBB, EndBB, Cond, gen')"
  shows "frame0 gen gen' \<and>
   (\<exists>d. BreakContinueDestStack gen' = BreakContinueDestStack gen @
        [(S, JumpDest EndBB d, JumpDest IncBB d)])"
  using assms
  by (auto simp: visitForStmt_head_def Let_def split_beta prim_defs pres_defs
      split: sum.splits option.splits dest!: emitCondition_preserves)

lemma visitForStmt_afterBody_preserves:
  "preserves gen (visitForStmt_afterBody increment LoopBB IncBB Cond gen)"
proof -
  let ?g1 = "emitOrDeleteBlock IncBB gen"
  let ?g2 = "(case increment of
                   Some I \<Rightarrow>
                     if hasValidInsertionPoint ?g1
                     then (let (scope, gen) = pushScope ?g1;
                               gen = emitIgnoredExpr I gen
                           in popScope scope gen)
                     else ?g1
                 | None \<Rightarrow> ?g1)"
  let ?g3 = "(if hasValidInsertionPoint ?g2 then createBranch LoopBB [] ?g2 else ?g2)"
  have "preserves ?g1 ?g2" by (simp add: prim_defs pres_defs Let_def split: option.splits)
  moreover have "preserves ?g2 ?g3" by (simp add: prim_defs pres_defs)
  ultimately have "preserves gen (exitTrue Cond ?g3)"
    by (blast intro: preserves_trans exitTrue_preserves emitOrDeleteBlock_preserves)
  then show ?thesis by (simp add: visitForStmt_afterBody_def Let_def)
qed

lemma visitForStmt_end_frame:
  "frame0 gen (visitForStmt_end EndBB Cond ForScope gen) \<and>
   BreakContinueDestStack (visitForStmt_end EndBB Cond ForScope gen) =
     butlast (BreakContinueDestStack gen)"
proof -
  have "preserves gen (emitOrDeleteBlock EndBB (complete Cond gen))"
    by (blast intro: preserves_trans complete_preserves emitOrDeleteBlock_preserves)
  then show ?thesis
    by (simp add: visitForStmt_end_def Let_def pres_defs popScope_def pop_back_def)
qed

lemma visitForEachStmt_head_frame:
  assumes "visitForEachStmt_head S generatorNext gen = Inr (nextBuf, LoopBB, EndBB, Cond, gen')"
  shows "frame0 gen gen' \<and>
   (\<exists>d. BreakContinueDestStack gen' = BreakContinueDestStack gen @
        [(S, JumpDest EndBB d, JumpDest LoopBB d)])"
proof -
  from assms obtain V g where
    c: "emitConditionValue V False False [] g = Inr (Cond, gen')"
    and g: "frame0 gen g \<and> BreakContinueDestStack g = BreakContinueDestStack gen @
        [(S, JumpDest EndBB (CleanupsDepth gen), JumpDest LoopBB (CleanupsDepth gen))]"
    by (auto simp: visitForEachStmt_head_def Let_def prim_defs pres_defs split: sum.splits)
  from emitConditionValue_preserves [OF c] g show ?thesis
    unfolding pres_defs by auto
qed

lemma visitForEachStmt_enterBody_preserves:
  "visitForEachStmt_enterBody pattern nextBuf Cond gen = Inr (InnerForScope, gen')
     \<Longrightarrow> preserves gen gen'"
  by (auto simp: visitForEachStmt_enterBody_def Let_def prim_defs split: sum.splits
      dest!: enterTrue_preserves)
    (simp add: pres_defs)

lemma visitForEachStmt_afterBody_preserves:
  "preserves gen (visitForEachStmt_afterBody InnerForScope LoopBB Cond gen)"
proof -
  let ?g1 = "popScope InnerForScope gen"
  let ?g2 = "(if hasValidInsertionPoint ?g1 then createBranch LoopBB [] ?g1 else ?g1)"
  have "preserves gen ?g2" by (simp add: prim_defs pres_defs)
  then have "preserves gen (exitTrue Cond ?g2)"
    by (blast intro: preserves_trans exitTrue_preserves)
  then show ?thesis by (simp add: visitForEachStmt_afterBody_def Let_def)
qed

lemma diagnoseUnreachable_preserves: "preserves gen (diagnoseUnreachable ty ESD gen)"
  by (simp add: diagnoseUnreachable_def diagnose_def pres_defs)

lemma hasTrue_head:
  "visitForStmt_head S cond gen = Inr (LoopBB, IncBB, EndBB, Cond, gen') \<Longrightarrow> hasTrue Cond"
  "visitForEachStmt_head S' next gen = Inr (nextBuf, LoopBB, EndBB, Cond, gen') \<Longrightarrow> hasTrue Cond"
  by (auto simp: visitForStmt_head_def visitForEachStmt_head_def emitCondition_def
      emitConditionValue_def hasTrue_def Let_def split_beta
      split: sum.splits option.splits if_splits)

text \<open>What a lowering that returned went through, statement kind by statement kind.\<close>

lemma visit_BraceStmt_Inr:
  assumes "visit (BraceStmt elements) gen = Inr gen'"
  obtains g where "visitElements UnknownStmtType elements (snd (pushScope gen)) = Inr g"
    and "gen' = popScope (fst (pushScope gen)) g"
  using assms
  by (cases "visitElements UnknownStmtType elements (snd (pushScope gen))")
    (simp_all add: split_beta)

lemma visit_IfStmt_Inr:
  assumes "visit (IfStmt cond thenStmt elseStmt) gen = Inr gen'"
  obtains (noElse) d0 d1 CBs g1 g2 where
      "visitIfStmt_cond cond gen = Inr (d0, d1, CBs, g1)"
      and "visit thenStmt g1 = Inr g2"
      and "elseStmt = None"
      and "gen' = popScope d0 (visitIfStmt_noElse CBs (popScope d1 g2))"
  | (withElse) d0 d1 CBs g1 g2 elseS g4 where
      "visitIfStmt_cond cond gen = Inr (d0, d1, CBs, g1)"
      and "visit thenStmt g1 = Inr g2"
      and "elseStmt = Some elseS"
      and "visit elseS (snd (visitIfStmt_elseBegin CBs (popScope d1 g2))) = Inr g4"
      and "gen' = popScope d0 (visitIfStmt_elseEnd
                      (fst (visitIfStmt_elseBegin CBs (popScope d1 g2))) g4)"
proof (cases "visitIfStmt_cond cond gen")
  case (Inl e)
  with assms show ?thesis by simp
next
  case (Inr r)
  obtain d0 d1 CBs g1 where r: "r = (d0, d1, CBs, g1)" by (cases r) auto
  note c = Inr [unfolded r]
  show ?thesis
  proof (cases "visit thenStmt g1")
    case (Inl e)
    with assms c show ?thesis by simp
  next
    case t: (Inr g2)
    show ?thesis
    proof (cases elseStmt)
      case None
      with assms c t show ?thesis by (intro noElse [OF c t None]) simp
    next
      case (Some elseS)
      show ?thesis
      proof (cases "visit elseS (snd (visitIfStmt_elseBegin CBs (popScope d1 g2)))")
        case (Inl e)
        with assms c t Some show ?thesis by (simp add: split_beta)
      next
        case e: (Inr g4)
        with assms c t Some show ?thesis
          by (intro withElse [OF c t Some e]) (simp add: split_beta)
      qed
    qed
  qed
qed

lemma visit_WhileStmt_Inr:
  assumes "visit (WhileStmt S cond body) gen = Inr gen'"
  obtains d0 d1 LoopBB CBs g1 g2 where
    "visitWhileStmt_head S cond gen = Inr (d0, d1, LoopBB, CBs, g1)"
    and "visit body g1 = Inr g2"
    and "gen' = visitWhileStmt_tail d0 d1 LoopBB CBs g2"
proof (cases "visitWhileStmt_head S cond gen")
  case (Inl e)
  with assms show ?thesis by simp
next
  case (Inr r)
  obtain d0 d1 LoopBB CBs g1 where r: "r = (d0, d1, LoopBB, CBs, g1)" by (cases r) auto
  show ?thesis
  proof (cases "visit body g1")
    case (Inl e)
    with assms Inr r show ?thesis by simp
  next
    case t: (Inr g2)
    with assms Inr r show ?thesis by (intro that [OF Inr [unfolded r] t]) simp
  qed
qed

lemma visit_DoWhileStmt_Inr:
  assumes "visit (DoWhileStmt S body cond) gen = Inr gen'"
  obtains LoopBB EndBB CondBB g1 g2 where
    "visitDoWhileStmt_head S gen = (LoopBB, EndBB, CondBB, g1)"
    and "visit body g1 = Inr g2"
    and "visitDoWhileStmt_tail cond LoopBB EndBB CondBB g2 = Inr gen'"
proof -
  obtain LoopBB EndBB CondBB g1 where
    h: "visitDoWhileStmt_head S gen = (LoopBB, EndBB, CondBB, g1)"
    by (cases "visitDoWhileStmt_head S gen") auto
  show ?thesis
  proof (cases "visit body g1")
    case (Inl e)
    with assms h show ?thesis by simp
  next
    case t: (Inr g2)
    with assms h show ?thesis by (intro that [OF h t]) simp
  qed
qed

lemma visit_ForStmt_Inr:
  assumes "visit (ForStmt S decls initializer cond increment body) gen = Inr gen'"
  obtains (unreachable) ForScope g0 where
      "visitForStmt_init decls initializer gen = (ForScope, g0)"
      and "\<not> hasValidInsertionPoint g0" and "gen' = popScope ForScope g0"
  | (loop) ForScope g0 LoopBB IncBB EndBB Cond g1 g2 g3 where
      "visitForStmt_init decls initializer gen = (ForScope, g0)"
      and "hasValidInsertionPoint g0"
      and "visitForStmt_head S cond g0 = Inr (LoopBB, IncBB, EndBB, Cond, g1)"
      and "hasTrue Cond"
      and "enterTrue Cond g1 = Inr g2"
      and "visit body g2 = Inr g3"
      and "gen' = visitForStmt_end EndBB Cond ForScope
             (visitForStmt_afterBody increment LoopBB IncBB Cond g3)"
proof -
  obtain ForScope g0 where i: "visitForStmt_init decls initializer gen = (ForScope, g0)"
    by (cases "visitForStmt_init decls initializer gen")
  show ?thesis
  proof (cases "hasValidInsertionPoint g0")
    case False
    with assms i show ?thesis by (intro unreachable [OF i]) simp_all
  next
    case True
    show ?thesis
    proof (cases "visitForStmt_head S cond g0")
      case (Inl e)
      with assms i True show ?thesis by simp
    next
      case (Inr r)
      obtain LoopBB IncBB EndBB Cond g1 where r: "r = (LoopBB, IncBB, EndBB, Cond, g1)"
        by (cases r) auto
      note h = Inr [unfolded r]
      note ht = hasTrue_head(1) [OF h]
      show ?thesis
      proof (cases "enterTrue Cond g1")
        case (Inl e)
        with assms i True h ht show ?thesis by simp
      next
        case e: (Inr g2)
        show ?thesis
        proof (cases "visit body g2")
          case (Inl e')
          with assms i True h ht e show ?thesis by simp
        next
          case b: (Inr g3)
          with assms i True h ht e show ?thesis
            by (intro loop [OF i True h ht e b]) simp
        qed
      qed
    qed
  qed
qed

lemma visit_ForEachStmt_Inr:
  assumes "visit (ForEachStmt S generator generatorNext pattern body) gen = Inr gen'"
  obtains (unreachable)
      "\<not> hasValidInsertionPoint (visitDecl generator (snd (pushScope gen)))"
      and "gen' = popScope (fst (pushScope gen)) (visitDecl generator (snd (pushScope gen)))"
  | (loop) nextBuf LoopBB EndBB Cond g1 InnerForScope g2 g3 where
      "hasValidInsertionPoint (visitDecl generator (snd (pushScope gen)))"
      and "visitForEachStmt_head S generatorNext (visitDecl generator (snd (pushScope gen)))
             = Inr (nextBuf, LoopBB, EndBB, Cond, g1)"
      and "hasTrue Cond"
      and "visitForEachStmt_enterBody pattern nextBuf Cond g1 = Inr (InnerForScope, g2)"
      and "visit body g2 = Inr g3"
      and "gen' = visitForStmt_end EndBB Cond (fst (pushScope gen))
             (visitForEachStmt_afterBody InnerForScope LoopBB Cond g3)"
proof -
  let ?g0 = "visitDecl generator (snd (pushScope gen))"
  show ?thesis
  proof (cases "hasValidInsertionPoint ?g0")
    case False
    with assms show ?thesis by (intro unreachable) (simp_all add: split_beta Let_def)
  next
    case True
    show ?thesis
    proof (cases "visitForEachStmt_head S generatorNext ?g0")
      case (Inl e)
      with assms True show ?thesis by (simp add: split_beta Let_def)
    next
      case (Inr r)
      obtain nextBuf LoopBB EndBB Cond g1 where r: "r = (nextBuf, LoopBB, EndBB, Cond, g1)"
        by (cases r) auto
      note h = Inr [unfolded r]
      note ht = hasTrue_head(2) [OF h]
      show ?thesis
      proof (cases "visitForEachStmt_enterBody pattern nextBuf Cond g1")
        case (Inl e)
        with assms True h ht show ?thesis by (simp add: split_beta Let_def)
      next
        case (Inr r2)
        obtain InnerForScope g2 where r2: "r2 = (InnerForScope, g2)" by (cases r2)
        note e = Inr [unfolded r2]
        show ?thesis
        proof (cases "visit body g2")
          case (Inl e')
          with assms True h ht e show ?thesis by (simp add: split_beta Let_def)
        next
          case b: (Inr g3)
          with assms True h ht e show ?thesis
            by (intro loop [OF True h ht e b]) (simp add: split_beta Let_def)
        qed
      qed
    qed
  qed
qed

lemma visitElements_Stmt_Inr:
  assumes "visitElements StmtType (NodeStmt S # elements) gen = Inr gen'"
  obtains (config) "isa_IfConfigStmt S" and "visitElements StmtType elements gen = Inr gen'"
  | (unreachable) "\<not> isa_IfConfigStmt S" and "\<not> hasValidInsertionPoint gen"
      and "gen' = diagnoseUnreachable StmtType (NodeStmt S) gen"
  | (lower) g1 where "\<not> isa_IfConfigStmt S" and "hasValidInsertionPoint gen"
      and "visit S gen = Inr g1"
      and "visitElements (nextStmtType StmtType S) elements g1 = Inr gen'"
proof (cases "isa_IfConfigStmt S")
  case True
  with assms show ?thesis by (intro config) simp_all
next
  case nc: False
  show ?thesis
  proof (cases "hasValidInsertionPoint gen")
    case False
    with assms nc show ?thesis by (intro unreachable) simp_all
  next
    case True
    show ?thesis
    proof (cases "visit S gen")
      case (Inl e)
      with assms nc True show ?thesis by simp
    next
      case (Inr g1)
      with assms nc True show ?thesis by (intro lower [OF nc True Inr]) simp
    qed
  qed
qed

lemma visit_preserves:
  "visit S gen = Inr gen' \<Longrightarrow> preserves gen gen'"
  "visitElements StmtType elements gen = Inr gen' \<Longrightarrow> preserves gen gen'"
proof (induction S gen and StmtType elements gen arbitrary: gen' and gen'
    rule: visit_visitElements.induct)
  case (1 elements gen)
  from "1.prems" obtain g where
    v: "visitElements UnknownStmtType elements (snd (pushScope gen)) = Inr g"
    and g: "gen' = popScope (fst (pushScope gen)) g"
    by (rule visit_BraceStmt_Inr)
  have "preserves (snd (pushScope gen)) g"
    by (rule "1.IH" [OF refl prod.collapse v])
  moreover have "preserves gen (snd (pushScope gen))" by (simp add: prim_defs pres_defs)
  ultimately show ?case
    unfolding g by (blast intro: preserves_trans popScope_preserves)
next
  case (2 result gen)
  then show ?case by (simp add: visitReturnStmt_preserves)
next
  case (3 cond thenStmt elseStmt gen)
  from "3.prems" show ?case
  proof (cases rule: visit_IfStmt_Inr)
    case (noElse d0 d1 CBs g1 g2)
    have "preserves gen g1" by (rule visitIfStmt_cond_preserves [OF noElse(1)])
    also have "preserves g1 g2" by (rule "3.IH"(1) [OF noElse(1) refl refl refl noElse(2)])
    also have "preserves g2 (popScope d1 g2)" by (rule popScope_preserves)
    also have "preserves (popScope d1 g2) (visitIfStmt_noElse CBs (popScope d1 g2))"
      by (rule visitIfStmt_noElse_preserves)
    also have "preserves (visitIfStmt_noElse CBs (popScope d1 g2)) gen'"
      unfolding noElse(4) by (rule popScope_preserves)
    finally show ?thesis .
  next
    case (withElse d0 d1 CBs g1 g2 elseS g4)
    let ?b = "visitIfStmt_elseBegin CBs (popScope d1 g2)"
    have "preserves gen g1" by (rule visitIfStmt_cond_preserves [OF withElse(1)])
    also have "preserves g1 g2"
      by (rule "3.IH"(1) [OF withElse(1) refl refl refl withElse(2)])
    also have "preserves g2 (popScope d1 g2)" by (rule popScope_preserves)
    also have "preserves (popScope d1 g2) (snd ?b)"
      by (rule visitIfStmt_elseBegin_preserves [OF prod.collapse [symmetric]])
    also have "preserves (snd ?b) g4"
      by (rule "3.IH"(2) [OF withElse(1) refl refl refl withElse(2) refl withElse(3) refl
            prod.collapse withElse(4)])
    also have "preserves g4 (visitIfStmt_elseEnd (fst ?b) g4)"
      by (rule visitIfStmt_elseEnd_preserves)
    also have "preserves (visitIfStmt_elseEnd (fst ?b) g4) gen'"
      unfolding withElse(5) by (rule popScope_preserves)
    finally show ?thesis .
  qed
next
  case (4 gen)
  then show ?case by simp
next
  case (5 S cond body gen)
  from "5.prems" obtain d0 d1 LoopBB CBs g1 g2 where
    h: "visitWhileStmt_head S cond gen = Inr (d0, d1, LoopBB, CBs, g1)"
    and b: "visit body g1 = Inr g2"
    and g: "gen' = visitWhileStmt_tail d0 d1 LoopBB CBs g2"
    by (rule visit_WhileStmt_Inr)
  have "preserves g1 g2" by (rule "5.IH" [OF h refl refl refl refl b])
  with visitWhileStmt_head_frame [OF h] visitWhileStmt_tail_frame [of g2 d0 d1 LoopBB CBs]
  show ?case
    unfolding g pres_defs by auto
next
  case (6 S body cond gen)
  from "6.prems" obtain LoopBB EndBB CondBB g1 g2 where
    h: "visitDoWhileStmt_head S gen = (LoopBB, EndBB, CondBB, g1)"
    and b: "visit body g1 = Inr g2"
    and t: "visitDoWhileStmt_tail cond LoopBB EndBB CondBB g2 = Inr gen'"
    by (rule visit_DoWhileStmt_Inr)
  have "preserves g1 g2" by (rule "6.IH" [OF h [symmetric] refl refl refl b])
  with visitDoWhileStmt_head_frame [OF h] visitDoWhileStmt_tail_frame [OF t]
  show ?case
    unfolding pres_defs by auto
next
  case (7 S decls initializer cond increment body gen)
  from "7.prems" show ?case
  proof (cases rule: visit_ForStmt_Inr)
    case (unreachable ForScope g0)
    with visitForStmt_init_preserves [OF unreachable(1)] show ?thesis
      by (blast intro: preserves_trans popScope_preserves)
  next
    case (loop ForScope g0 LoopBB IncBB EndBB Cond g1 g2 g3)
    have "preserves g2 g3"
      by (rule "7.IH" [OF loop(1) [symmetric] refl _ loop(3) refl refl refl refl loop(4,5,6)])
        (simp add: loop(2))
    with enterTrue_preserves [OF loop(5)]
      visitForStmt_afterBody_preserves [of g3 increment LoopBB IncBB Cond]
    have "preserves g1 (visitForStmt_afterBody increment LoopBB IncBB Cond g3)"
      by (blast intro: preserves_trans)
    with visitForStmt_init_preserves [OF loop(1)] visitForStmt_head_frame [OF loop(3)]
      visitForStmt_end_frame [of "visitForStmt_afterBody increment LoopBB IncBB Cond g3" EndBB Cond ForScope]
    show ?thesis
      unfolding loop(7) pres_defs by auto
  qed
next
  case (8 S generator generatorNext pattern body gen)
  let ?g0 = "visitDecl generator (snd (pushScope gen))"
  let ?d = "fst (pushScope gen)"
  have p0: "preserves gen ?g0" by (simp add: prim_defs pres_defs)
  from "8.prems" show ?case
  proof (cases rule: visit_ForEachStmt_Inr)
    case unreachable
    with p0 show ?thesis by (blast intro: preserves_trans popScope_preserves)
  next
    case (loop nextBuf LoopBB EndBB Cond g1 d2 g2 g3)
    have "preserves g2 g3"
      by (rule "8.IH" [OF refl prod.collapse refl _ loop(2) refl refl refl refl loop(3,4) refl loop(5)])
        (simp add: loop(1))
    with visitForEachStmt_enterBody_preserves [OF loop(4)]
      visitForEachStmt_afterBody_preserves [of g3 d2 LoopBB Cond]
    have "preserves g1 (visitForEachStmt_afterBody d2 LoopBB Cond g3)"
      by (blast intro: preserves_trans)
    with p0 visitForEachStmt_head_frame [OF loop(2)]
      visitForStmt_end_frame [of "visitForEachStmt_afterBody d2 LoopBB Cond g3" EndBB Cond ?d]
    show ?thesis
      unfolding loop(6) pres_defs by auto
  qed
next
  case (9 target gen)
  then show ?case by (simp add: visitBreakStmt_preserves)
next
  case (10 target gen)
  then show ?case by (simp add: visitContinueStmt_preserves)
next
  case (11 gen)
  then show ?case by simp
next
  case (12 gen)
  then show ?case by (simp add: visitFailStmt_preserves)
next
  case (13 StmtType gen)
  then show ?case by simp
next
  case (14 StmtType S elements gen)
  from "14.prems" show ?case
  proof (cases rule: visitElements_Stmt_Inr)
    case config
    then show ?thesis by (intro "14.IH"(1))
  next
    case unreachable
    then show ?thesis by (simp add: diagnoseUnreachable_preserves)
  next
    case (lower g1)
    have "preserves gen g1"
      by (rule "14.IH"(2) [OF lower(1) _ lower(3)]) (simp add: lower(2))
    moreover have "preserves g1 gen'"
      by (rule "14.IH"(3) [OF lower(1) _ lower(3,4)]) (simp add: lower(2))
    ultimately show ?thesis by (rule preserves_trans)
  qed
next
  case (15 StmtType E elements gen)
  show ?case
  proof (cases "hasValidInsertionPoint gen")
    case False
    with "15.prems" show ?thesis by (auto simp: diagnoseUnreachable_preserves)
  next
    case True
    with "15.prems" "15.IH" have "preserves (emitIgnoredExpr E gen) gen'" by simp
    moreover have "preserves gen (emitIgnoredExpr E gen)" by (simp add: prim_defs pres_defs)
    ultimately show ?thesis by (rule preserves_trans [rotated])
  qed
next
  case (16 StmtType D elements gen)
  show ?case
  proof (cases "hasValidInsertionPoint gen")
    case False
    with "16.prems" show ?thesis by (auto simp: diagnoseUnreachable_preserves)
  next
    case True
    with "16.prems" "16.IH" have "preserves (visitDecl D gen) gen'" by simp
    moreover have "preserves gen (visitDecl D gen)" by (simp add: prim_defs pres_defs)
    ultimately show ?thesis by (rule preserves_trans [rotated])
  qed
qed

lemma Inr_projr: "\<not> isl x \<Longrightarrow> x = Inr (projr x)"
  by (cases x) simp_all

text \<open>
  C9. Lowering a statement, when it returns, leaves the break/continue target stack as it
  found it. For a loop statement that reaches its loop: the body is lowered with the stack
  one entry longer, the entry of this statement with its break and continue destinations
  (the first cleanup block and the loop head for \<open>while\<close>; the end block and the condition
  block for \<open>do-while\<close>; the end block and the increment block for \<open>for\<close>; the end block
  and the loop head for \<open>for-each\<close>), the body leaves that stack as it is, and the entry is
  popped before the lowering returns. \<open>for\<close> and \<open>for-each\<close> return before the push when the
  insertion point is invalid after their initialisation.
\<close>

theorem visit_leaves_target_stack:
  assumes "visit S gen = Inr gen'"
  shows "BreakContinueDestStack gen' = BreakContinueDestStack gen \<and>
    (\<forall>S' cond body. S = WhileStmt S' cond body \<longrightarrow>
       (\<exists>d0 d1 LoopBB CBs g1 g2 d.
          visitWhileStmt_head S' cond gen = Inr (d0, d1, LoopBB, CBs, g1) \<and>
          BreakContinueDestStack g1 =
            BreakContinueDestStack gen @ [(S', JumpDest (hd CBs) d, JumpDest LoopBB d)] \<and>
          visit body g1 = Inr g2 \<and>
          BreakContinueDestStack g2 = BreakContinueDestStack g1)) \<and>
    (\<forall>S' body cond. S = DoWhileStmt S' body cond \<longrightarrow>
       (\<exists>LoopBB EndBB CondBB g1 g2 d.
          visitDoWhileStmt_head S' gen = (LoopBB, EndBB, CondBB, g1) \<and>
          BreakContinueDestStack g1 =
            BreakContinueDestStack gen @ [(S', JumpDest EndBB d, JumpDest CondBB d)] \<and>
          visit body g1 = Inr g2 \<and>
          BreakContinueDestStack g2 = BreakContinueDestStack g1)) \<and>
    (\<forall>S' decls initializer cond increment body.
       S = ForStmt S' decls initializer cond increment body \<longrightarrow>
       (\<exists>ForScope g0. visitForStmt_init decls initializer gen = (ForScope, g0) \<and>
          BreakContinueDestStack g0 = BreakContinueDestStack gen \<and>
          (if \<not> hasValidInsertionPoint g0 then gen' = popScope ForScope g0
           else
             (\<exists>LoopBB IncBB EndBB Cond g1 g2 g3 d.
                visitForStmt_head S' cond g0 = Inr (LoopBB, IncBB, EndBB, Cond, g1) \<and>
                BreakContinueDestStack g1 =
                  BreakContinueDestStack gen @ [(S', JumpDest EndBB d, JumpDest IncBB d)] \<and>
                enterTrue Cond g1 = Inr g2 \<and>
                visit body g2 = Inr g3 \<and>
                BreakContinueDestStack g3 = BreakContinueDestStack g1)))) \<and>
    (\<forall>S' generator generatorNext pattern body.
       S = ForEachStmt S' generator generatorNext pattern body \<longrightarrow>
       (if \<not> hasValidInsertionPoint (visitDecl generator (snd (pushScope gen)))
        then gen' = popScope (fst (pushScope gen)) (visitDecl generator (snd (pushScope gen)))
        else
          (\<exists>nextBuf LoopBB EndBB Cond g1 InnerForScope g2 g3 d.
             visitForEachStmt_head S' generatorNext (visitDecl generator (snd (pushScope gen)))
               = Inr (nextBuf, LoopBB, EndBB, Cond, g1) \<and>
             BreakContinueDestStack g1 =
               BreakContinueDestStack gen @ [(S', JumpDest EndBB d, JumpDest LoopBB d)] \<and>
             visitForEachStmt_enterBody pattern nextBuf Cond g1 = Inr (InnerForScope, g2) \<and>
             visit body g2 = Inr g3 \<and>
             BreakContinueDestStack g3 = BreakContinueDestStack g1)))"
proof (intro conjI allI impI)
  show "BreakContinueDestStack gen' = BreakContinueDestStack gen"
    using visit_preserves(1) [OF assms] by (simp add: preserves_def)
next
  fix S' cond body assume S: "S = WhileStmt S' cond body"
  from assms [unfolded S] obtain d0 d1 LoopBB CBs g1 g2 where
    h: "visitWhileStmt_head S' cond gen = Inr (d0, d1, LoopBB, CBs, g1)"
    and b: "visit body g1 = Inr g2"
    by (rule visit_WhileStmt_Inr)
  from visitWhileStmt_head_frame [OF h] visit_preserves(1) [OF b] h b
  show "\<exists>d0 d1 LoopBB CBs g1 g2 d.
          visitWhileStmt_head S' cond gen = Inr (d0, d1, LoopBB, CBs, g1) \<and>
          BreakContinueDestStack g1 =
            BreakContinueDestStack gen @ [(S', JumpDest (hd CBs) d, JumpDest LoopBB d)] \<and>
          visit body g1 = Inr g2 \<and>
          BreakContinueDestStack g2 = BreakContinueDestStack g1"
    unfolding preserves_def by blast
next
  fix S' body cond assume S: "S = DoWhileStmt S' body cond"
  from assms [unfolded S] obtain LoopBB EndBB CondBB g1 g2 where
    h: "visitDoWhileStmt_head S' gen = (LoopBB, EndBB, CondBB, g1)"
    and b: "visit body g1 = Inr g2"
    by (rule visit_DoWhileStmt_Inr)
  from visitDoWhileStmt_head_frame [OF h] visit_preserves(1) [OF b] h b
  show "\<exists>LoopBB EndBB CondBB g1 g2 d.
          visitDoWhileStmt_head S' gen = (LoopBB, EndBB, CondBB, g1) \<and>
          BreakContinueDestStack g1 =
            BreakContinueDestStack gen @ [(S', JumpDest EndBB d, JumpDest CondBB d)] \<and>
          visit body g1 = Inr g2 \<and>
          BreakContinueDestStack g2 = BreakContinueDestStack g1"
    unfolding preserves_def by blast
next
  fix S' decls initializer cond increment body
  assume S: "S = ForStmt S' decls initializer cond increment body"
  from assms [unfolded S]
  show "\<exists>ForScope g0. visitForStmt_init decls initializer gen = (ForScope, g0) \<and>
          BreakContinueDestStack g0 = BreakContinueDestStack gen \<and>
          (if \<not> hasValidInsertionPoint g0 then gen' = popScope ForScope g0
           else
             (\<exists>LoopBB IncBB EndBB Cond g1 g2 g3 d.
                visitForStmt_head S' cond g0 = Inr (LoopBB, IncBB, EndBB, Cond, g1) \<and>
                BreakContinueDestStack g1 =
                  BreakContinueDestStack gen @ [(S', JumpDest EndBB d, JumpDest IncBB d)] \<and>
                enterTrue Cond g1 = Inr g2 \<and>
                visit body g2 = Inr g3 \<and>
                BreakContinueDestStack g3 = BreakContinueDestStack g1))"
  proof (cases rule: visit_ForStmt_Inr)
    case (unreachable ForScope g0)
    with visitForStmt_init_preserves [OF unreachable(1)] show ?thesis
      unfolding preserves_def by auto
  next
    case (loop ForScope g0 LoopBB IncBB EndBB Cond g1 g2 g3)
    from visitForStmt_init_preserves [OF loop(1)] visitForStmt_head_frame [OF loop(3)]
      enterTrue_preserves [OF loop(5)] visit_preserves(1) [OF loop(6)]
    obtain d where
      "BreakContinueDestStack g0 = BreakContinueDestStack gen"
      "BreakContinueDestStack g1 =
         BreakContinueDestStack gen @ [(S', JumpDest EndBB d, JumpDest IncBB d)]"
      "BreakContinueDestStack g3 = BreakContinueDestStack g1"
      unfolding preserves_def by auto
    with loop have "\<exists>LoopBB IncBB EndBB Cond g1 g2 g3 d.
                visitForStmt_head S' cond g0 = Inr (LoopBB, IncBB, EndBB, Cond, g1) \<and>
                BreakContinueDestStack g1 =
                  BreakContinueDestStack gen @ [(S', JumpDest EndBB d, JumpDest IncBB d)] \<and>
                enterTrue Cond g1 = Inr g2 \<and>
                visit body g2 = Inr g3 \<and>
                BreakContinueDestStack g3 = BreakContinueDestStack g1"
      by blast
    with loop(1,2) \<open>BreakContinueDestStack g0 = BreakContinueDestStack gen\<close>
    show ?thesis by simp
  qed
next
  fix S' generator generatorNext pattern body
  assume S: "S = ForEachStmt S' generator generatorNext pattern body"
  let ?g0 = "visitDecl generator (snd (pushScope gen))"
  have s0: "BreakContinueDestStack ?g0 = BreakContinueDestStack gen"
    by (simp add: prim_defs)
  from assms [unfolded S]
  show "if \<not> hasValidInsertionPoint ?g0
        then gen' = popScope (fst (pushScope gen)) ?g0
        else
          (\<exists>nextBuf LoopBB EndBB Cond g1 InnerForScope g2 g3 d.
             visitForEachStmt_head S' generatorNext ?g0
               = Inr (nextBuf, LoopBB, EndBB, Cond, g1) \<and>
             BreakContinueDestStack g1 =
               BreakContinueDestStack gen @ [(S', JumpDest EndBB d, JumpDest LoopBB d)] \<and>
             visitForEachStmt_enterBody pattern nextBuf Cond g1 = Inr (InnerForScope, g2) \<and>
             visit body g2 = Inr g3 \<and>
             BreakContinueDestStack g3 = BreakContinueDestStack g1)"
  proof (cases rule: visit_ForEachStmt_Inr)
    case unreachable
    then show ?thesis by simp
  next
    case (loop nextBuf LoopBB EndBB Cond g1 InnerForScope g2 g3)
    from visitForEachStmt_head_frame [OF loop(2)]
      visitForEachStmt_enterBody_preserves [OF loop(4)] visit_preserves(1) [OF loop(5)] s0
    obtain d where
      "BreakContinueDestStack g1 =
         BreakContinueDestStack gen @ [(S', JumpDest EndBB d, JumpDest LoopBB d)]"
      "BreakContinueDestStack g3 = BreakContinueDestStack g1"
      unfolding preserves_def by auto
    with loop have "\<exists>nextBuf LoopBB EndBB Cond g1 InnerForScope g2 g3 d.
             visitForEachStmt_head S' generatorNext ?g0
               = Inr (nextBuf, LoopBB, EndBB, Cond, g1) \<and>
             BreakContinueDestStack g1 =
               BreakContinueDestStack gen @ [(S', JumpDest EndBB d, JumpDest LoopBB d)] \<and>
             visitForEachStmt_enterBody pattern nextBuf Cond g1 = Inr (InnerForScope, g2) \<and>
             visit body g2 = Inr g3 \<and>
             BreakContinueDestStack g3 = BreakContinueDestStack g1"
      by blast
    with loop(1) show ?thesis by simp
  qed
qed

theorem visit_leaves_target_stack_witness:
  "visit (WhileStmt 7 [] (BraceStmt [NodeStmt (BreakStmt (Some 7))])) entryGen =
     Inr (projr (visit (WhileStmt 7 [] (BraceStmt [NodeStmt (BreakStmt (Some 7))])) entryGen)) \<and>
   BreakContinueDestStack
     (projr (visit (WhileStmt 7 [] (BraceStmt [NodeStmt (BreakStmt (Some 7))])) entryGen)) =
     BreakContinueDestStack entryGen"
proof -
  have "\<not> isl (visit (WhileStmt 7 [] (BraceStmt [NodeStmt (BreakStmt (Some 7))])) entryGen)"
    by code_simp
  then have h: "visit (WhileStmt 7 [] (BraceStmt [NodeStmt (BreakStmt (Some 7))])) entryGen =
     Inr (projr (visit (WhileStmt 7 [] (BraceStmt [NodeStmt (BreakStmt (Some 7))])) entryGen))"
    by (rule Inr_projr)
  from visit_leaves_target_stack [OF h] h show ?thesis by blast
qed

subsection \<open>Blocks: unreachable code\<close>

lemma isa_IfConfigStmt_iff: "isa_IfConfigStmt S \<longleftrightarrow> S = IfConfigStmt"
  by (cases S) simp_all

text \<open>
  At an invalid insertion point the loop over a block's elements passes over the
  conditional-compilation statements, reports the first other element, and stops.
\<close>

lemma visitElements_unreachable:
  "\<not> hasValidInsertionPoint gen \<Longrightarrow>
   visitElements StmtType elements gen =
     (case find (\<lambda>e. e \<noteq> NodeStmt IfConfigStmt) elements of
        None \<Rightarrow> Inr gen
      | Some ESD \<Rightarrow> Inr (diagnoseUnreachable StmtType ESD gen))"
proof (induction elements)
  case Nil
  then show ?case by simp
next
  case (Cons e es)
  then show ?case
    by (cases e) (simp_all add: isa_IfConfigStmt_iff)
qed

text \<open>
  C10. An \<open>IfConfigStmt\<close> element is skipped before the insertion point is looked at: with
  it or without it the loop does the same, whatever the insertion point. So at an invalid
  insertion point a run of \<open>IfConfigStmt\<close> elements reports nothing and changes nothing, and
  the element after the run, when it is not an \<open>IfConfigStmt\<close>, is the one reported: the
  state the loop returns differs from the one it started in by exactly one more diagnostic
  at the end of \<open>Diags\<close>, which names that element (after a \<open>return\<close> or \<open>continue\<close> the one
  that says so, otherwise the generic one); nothing is emitted and no later element is
  looked at.
\<close>

theorem visitElements_skips_IfConfigStmt:
  "visitElements StmtType (NodeStmt IfConfigStmt # elements) gen =
     visitElements StmtType elements gen \<and>
   (\<not> hasValidInsertionPoint gen \<and> list_all (\<lambda>e. e = NodeStmt IfConfigStmt) configs \<longrightarrow>
      visitElements StmtType configs gen = Inr gen \<and>
      (ESD \<noteq> NodeStmt IfConfigStmt \<longrightarrow>
         visitElements StmtType (configs @ ESD # elements) gen =
           Inr (gen\<lparr>Diags := Diags gen @
                  [if StmtType \<noteq> UnknownStmtType
                   then unreachable_code_after_stmt ESD StmtType
                   else unreachable_code ESD]\<rparr>)))"
proof -
  have skip: "find (\<lambda>e. e \<noteq> NodeStmt IfConfigStmt) (configs @ es) =
        find (\<lambda>e. e \<noteq> NodeStmt IfConfigStmt) es"
    if "list_all (\<lambda>e. e = NodeStmt IfConfigStmt) configs" for es
    using that by (induction configs) simp_all
  show ?thesis
    using skip [of "[]"] skip [of "ESD # elements"]
    by (auto simp: visitElements_unreachable diagnoseUnreachable_def diagnose_def)
qed

theorem visitElements_skips_IfConfigStmt_witness:
  "\<not> hasValidInsertionPoint (clearInsertionPoint entryGen) \<and>
   list_all (\<lambda>e. e = NodeStmt IfConfigStmt) [NodeStmt IfConfigStmt, NodeStmt IfConfigStmt] \<and>
   NodeExpr (Expr 0 False) \<noteq> NodeStmt IfConfigStmt \<and>
   visitElements ReturnStmtType
       ([NodeStmt IfConfigStmt, NodeStmt IfConfigStmt] @ NodeExpr (Expr 0 False) # [])
       (clearInsertionPoint entryGen) =
     Inr ((clearInsertionPoint entryGen)
            \<lparr>Diags := [unreachable_code_after_stmt (NodeExpr (Expr 0 False)) ReturnStmtType]\<rparr>)"
  using visitElements_skips_IfConfigStmt
    [of ReturnStmtType "[]" "clearInsertionPoint entryGen"
        "[NodeStmt IfConfigStmt, NodeStmt IfConfigStmt]" "NodeExpr (Expr 0 False)"]
  by (simp add: hasValidInsertionPoint_def clearInsertionPoint_def entryGen_def
      ReturnStmtType_def UnknownStmtType_def)

lemma diagnoseUnreachable_fields [simp]:
  "InsertionPoint (diagnoseUnreachable ty ESD gen) = InsertionPoint gen"
  "blocks (diagnoseUnreachable ty ESD gen) = blocks gen"
  "layout (diagnoseUnreachable ty ESD gen) = layout gen"
  by (simp_all add: diagnoseUnreachable_def diagnose_def)

lemma visitElements_unreachable_stays:
  "\<not> hasValidInsertionPoint gen \<Longrightarrow> visitElements StmtType elements gen = Inr gen'
     \<Longrightarrow> \<not> hasValidInsertionPoint gen'"
  by (auto simp: visitElements_unreachable hasValidInsertionPoint_def split: option.splits)

lemma visit_jump_unreachable:
  "isa_ReturnStmt S \<or> isa_ContinueStmt S \<Longrightarrow> visit S gen = Inr gen'
     \<Longrightarrow> \<not> hasValidInsertionPoint gen'"
  by (cases S)
    (auto simp: hasValidInsertionPoint_def dest: visitReturnStmt_preserves visitContinueStmt_preserves)

lemma nextStmtType_Unknown:
  "\<not> isa_ReturnStmt S \<Longrightarrow> \<not> isa_ContinueStmt S \<Longrightarrow>
     nextStmtType UnknownStmtType S = UnknownStmtType"
  by (simp add: nextStmtType_def)

lemma visitElements_append:
  "visitElements StmtType pre gen = Inr gen1 \<Longrightarrow> hasValidInsertionPoint gen1 \<Longrightarrow>
   StmtType = UnknownStmtType \<Longrightarrow>
   visitElements StmtType (pre @ elements) gen = visitElements UnknownStmtType elements gen1"
proof (induction pre arbitrary: StmtType gen)
  case Nil
  then show ?case by simp
next
  case (Cons e pre)
  show ?case
  proof (cases e)
    case (NodeStmt S)
    from Cons.prems(1) [unfolded NodeStmt] show ?thesis
    proof (cases rule: visitElements_Stmt_Inr)
      case config
      with Cons.IH [OF config(2) Cons.prems(2,3)] NodeStmt show ?thesis by simp
    next
      case unreachable
      with Cons.prems(2) show ?thesis by (simp add: hasValidInsertionPoint_def)
    next
      case (lower g1)
      have v: "hasValidInsertionPoint g1"
        using visitElements_unreachable_stays [OF _ lower(4)] Cons.prems(2) by blast
      with visit_jump_unreachable [OF _ lower(3)]
      have "\<not> isa_ReturnStmt S" "\<not> isa_ContinueStmt S" by blast+
      then have n: "nextStmtType StmtType S = UnknownStmtType"
        using Cons.prems(3) by (simp add: nextStmtType_Unknown)
      from Cons.IH [OF lower(4) Cons.prems(2) n] lower NodeStmt n show ?thesis by simp
    qed
  next
    case (NodeExpr E)
    show ?thesis
    proof (cases "hasValidInsertionPoint gen")
      case False
      with Cons.prems NodeExpr show ?thesis by (auto simp: hasValidInsertionPoint_def)
    next
      case True
      with Cons.prems NodeExpr Cons.IH [of StmtType "emitIgnoredExpr E gen"] show ?thesis
        by simp
    qed
  next
    case (NodeDecl D)
    show ?thesis
    proof (cases "hasValidInsertionPoint gen")
      case False
      with Cons.prems NodeDecl show ?thesis by (auto simp: hasValidInsertionPoint_def)
    next
      case True
      with Cons.prems NodeDecl Cons.IH [of StmtType "visitDecl D gen"] show ?thesis
        by simp
    qed
  qed
qed

text \<open>
  C8 (amended). In a block, when lowering the statement \<open>S\<close> leaves the insertion point
  invalid and an element that is not an \<open>IfConfigStmt\<close> remains after it, the lowering of
  the block returns with exactly one more diagnostic, for the first such element: "after
  return" when \<open>S\<close> is a \<open>return\<close>, "after continue" when it is a \<open>continue\<close>, the generic
  one otherwise; and the blocks and their order are as lowering \<open>S\<close> left them, so that
  element and every later one produce no IR.
\<close>

theorem unreachable_code_diagnosed_once:
  assumes "visitElements UnknownStmtType pre (snd (pushScope gen)) = Inr gen1"
    and "hasValidInsertionPoint gen1"
    and "S \<noteq> IfConfigStmt"
    and "visit S gen1 = Inr gen2"
    and "\<not> hasValidInsertionPoint gen2"
    and "find (\<lambda>e. e \<noteq> NodeStmt IfConfigStmt) rest = Some ESD"
  shows "\<exists>gen'. visit (BraceStmt (pre @ NodeStmt S # rest)) gen = Inr gen' \<and>
     Diags gen' = Diags gen2 @ [unreachableDiagnostic S ESD] \<and>
     blocks gen' = blocks gen2 \<and> layout gen' = layout gen2 \<and>
     InsertionPoint gen' = None"
proof -
  have "visitElements UnknownStmtType (pre @ NodeStmt S # rest) (snd (pushScope gen)) =
      visitElements UnknownStmtType (NodeStmt S # rest) gen1"
    by (rule visitElements_append [OF assms(1,2) refl])
  also from assms(2-4) have "\<dots> = visitElements (nextStmtType UnknownStmtType S) rest gen2"
    by (simp add: isa_IfConfigStmt_iff)
  also from assms(5,6) have "\<dots> = Inr (diagnoseUnreachable (nextStmtType UnknownStmtType S) ESD gen2)"
    by (simp add: visitElements_unreachable)
  also have "diagnoseUnreachable (nextStmtType UnknownStmtType S) ESD gen2 =
      diagnose (unreachableDiagnostic S ESD) gen2"
    by (simp add: diagnoseUnreachable_def nextStmtType_def unreachableDiagnostic_def
        UnknownStmtType_def ReturnStmtType_def ContinueStmtType_def)
  finally have "visit (BraceStmt (pre @ NodeStmt S # rest)) gen =
      Inr (popScope (fst (pushScope gen)) (diagnose (unreachableDiagnostic S ESD) gen2))"
    by (simp add: split_beta)
  moreover from assms(5) have "InsertionPoint gen2 = None"
    by (simp add: hasValidInsertionPoint_def)
  ultimately show ?thesis
    by (simp add: popScope_def diagnose_def insertInst_def)
qed

theorem unreachable_code_diagnosed_once_witness:
  "visitElements UnknownStmtType [NodeExpr (Expr 1 False)] (snd (pushScope entryGen)) =
     Inr (emitIgnoredExpr (Expr 1 False) (snd (pushScope entryGen))) \<and>
   hasValidInsertionPoint (emitIgnoredExpr (Expr 1 False) (snd (pushScope entryGen))) \<and>
   \<not> hasValidInsertionPoint
       (projr (visit (ReturnStmt None)
          (emitIgnoredExpr (Expr 1 False) (snd (pushScope entryGen))))) \<and>
   (\<exists>gen'. visit (BraceStmt ([NodeExpr (Expr 1 False)] @ NodeStmt (ReturnStmt None) #
                 [NodeStmt IfConfigStmt, NodeExpr (Expr 2 False), NodeExpr (Expr 3 False)]))
               entryGen = Inr gen' \<and>
      Diags gen' =
        Diags (projr (visit (ReturnStmt None)
                 (emitIgnoredExpr (Expr 1 False) (snd (pushScope entryGen))))) @
        [unreachableDiagnostic (ReturnStmt None) (NodeExpr (Expr 2 False))]) \<and>
   unreachableDiagnostic (ReturnStmt None) (NodeExpr (Expr 2 False)) =
     unreachable_code_after_stmt (NodeExpr (Expr 2 False)) ReturnStmtType"
proof -
  let ?g1 = "emitIgnoredExpr (Expr 1 False) (snd (pushScope entryGen))"
  have 1: "visitElements UnknownStmtType [NodeExpr (Expr 1 False)] (snd (pushScope entryGen)) =
      Inr ?g1"
    by (simp add: prim_defs entryGen_def)
  have 2: "hasValidInsertionPoint ?g1"
    by (simp add: prim_defs entryGen_def)
  have 3: "ReturnStmt None \<noteq> IfConfigStmt" by simp
  have "\<not> isl (visit (ReturnStmt None) ?g1)" by code_simp
  then have 4: "visit (ReturnStmt None) ?g1 = Inr (projr (visit (ReturnStmt None) ?g1))"
    by (rule Inr_projr)
  have 5: "\<not> hasValidInsertionPoint (projr (visit (ReturnStmt None) ?g1))" by code_simp
  have 6: "find (\<lambda>e. e \<noteq> NodeStmt IfConfigStmt)
      [NodeStmt IfConfigStmt, NodeExpr (Expr 2 False), NodeExpr (Expr 3 False)] =
      Some (NodeExpr (Expr 2 False))"
    by simp
  from unreachable_code_diagnosed_once [OF 1 2 3 4 5 6] 1 2 5 show ?thesis
    by (auto simp: unreachableDiagnostic_def)
qed

text \<open>
  The claim as stated fails where only \<open>IfConfigStmt\<close> elements remain: in the block
  \<open>{ return; #if ... #endif }\<close> the \<open>return\<close> leaves the insertion point invalid before
  the remaining element, and no diagnostic is reported.
\<close>

theorem unreachable_code_counterexample:
  "\<not> isl (visit (ReturnStmt None) (snd (pushScope entryGen))) \<and>
   \<not> hasValidInsertionPoint (projr (visit (ReturnStmt None) (snd (pushScope entryGen)))) \<and>
   map_sum (\<lambda>e. e) Diags
     (visit (BraceStmt [NodeStmt (ReturnStmt None), NodeStmt IfConfigStmt]) entryGen) = Inr []"
  by code_simp

subsection \<open>The cleanup blocks of a condition\<close>

lemma insts_insertInst:
  "insts (blocks (insertInst i gen) b) =
     (if InsertionPoint gen = Some b then insts (blocks gen b) @ [i] else insts (blocks gen b))"
  by (simp add: insertInst_def appendInst_def split: option.splits)

lemma cleanupChain_cong:
  "(\<And>b. b \<in> set CBs \<Longrightarrow> insts (blocks gen' b) = insts (blocks gen b)) \<Longrightarrow>
     cleanupChain gen' CBs slots = cleanupChain gen CBs slots"
  by (induction gen CBs slots rule: cleanupChain.induct) (auto split: list.splits)

lemma pred_empty_insertInst:
  "successors i = [] \<Longrightarrow> pred_empty b (insertInst i gen) = pred_empty b gen"
  by (auto simp: pred_empty_def insts_insertInst)

lemma condInv_expr:
  assumes "condInv b0 buffers CB nb gen"
  shows "condInv b0 buffers CB nb (emitStmtCondition_expr expr CB gen)"
proof -
  from assms obtain ip where ip: "InsertionPoint gen = Some ip" "ip \<notin> set CB"
    "ip \<in> set (layout gen)" "ip < next_block gen"
    and cb: "CB \<noteq> []" "hd CB = b0" "sorted_wrt (<) CB" "\<forall>b \<in> set CB. b < next_block gen"
    "nb \<le> length buffers"
    and ch: "cleanupChain gen (rev CB) (rev (map OptAddr (take nb buffers)))"
    by (auto simp: condInv_def)
  let ?g = "emitStmtCondition_expr expr CB gen"
  have fr: "insts (blocks ?g b) = insts (blocks gen b)" if "b \<in> set CB" for b
    using that ip cb
    by (auto simp: emitStmtCondition_expr_def Let_def split_beta prim_defs insts_insertInst)
  have f: "next_block ?g = Suc (next_block gen)" "InsertionPoint ?g = Some (next_block gen)"
    "layout ?g = filter (\<lambda>b. b \<noteq> next_block gen) (layout gen) @ [next_block gen]"
    by (simp_all add: emitStmtCondition_expr_def Let_def split_beta prim_defs)
  have br: "CondBranchInst (RValueOf expr) (next_block gen) (last CB) \<in> set (insts (blocks ?g ip))"
    using ip
    by (simp add: emitStmtCondition_expr_def Let_def split_beta prim_defs insts_insertInst)
  have np: "\<not> pred_empty (last CB) ?g"
    unfolding pred_empty_def using br ip f(3) by fastforce
  from cb have "last CB \<in> set CB" by simp
  with cb ip f fr np cleanupChain_cong [of "rev CB" ?g gen, OF fr] ch
  show ?thesis
    by (auto simp: condInv_def)
qed

lemma pred_empty_External:
  assumes "layout g' = layout g"
    and "\<And>b. \<exists>es. insts (blocks g' b) = insts (blocks g b) @ map External es"
  shows "pred_empty x g' = pred_empty x g"
proof -
  have "(\<forall>i \<in> set (insts (blocks g' b)). x \<notin> set (successors i)) =
        (\<forall>i \<in> set (insts (blocks g b)). x \<notin> set (successors i))" for b
    using assms(2) [of b] by auto
  then show ?thesis by (simp add: pred_empty_def assms(1))
qed

lemma cleanupChain_snoc:
  "CBs \<noteq> [] \<Longrightarrow>
   cleanupChain gen (bb # CBs) (s # slots) \<longleftrightarrow>
     insts (blocks gen bb) = [DestroyAddrInst s, BranchInst (hd CBs) []] \<and>
     cleanupChain gen CBs slots"
  by (cases CBs) simp_all

lemma condInv_binding:
  assumes inv: "condInv b0 buffers CB nb gen"
    and step: "emitStmtCondition_binding binding buffers CB nb gen = Inr (CB', gen')"
  shows "condInv b0 buffers CB' (nb + 1) gen'"
proof -
  from inv obtain ip where ip: "InsertionPoint gen = Some ip" "ip \<notin> set CB"
    "ip \<in> set (layout gen)" "ip < next_block gen"
    and cb: "CB \<noteq> []" "hd CB = b0" "sorted_wrt (<) CB" "\<forall>b \<in> set CB. b < next_block gen"
    and ch: "cleanupChain gen (rev CB) (rev (map OptAddr (take nb buffers)))"
    and pe: "pred_empty (last CB) gen \<longrightarrow> length CB = 1 \<and> insts (blocks gen (last CB)) = []"
    by (auto simp: condInv_def)
  from step obtain init where nb: "nb < length buffers" and init: "getInit binding = Some init"
    and pbd: "PBD (buffers ! nb) = binding"
    by (auto simp: emitStmtCondition_binding_def split: if_splits option.splits)
  define s where "s = OptAddr (buffers ! nb)"
  define g1 where "g1 = snd (emitDoesOptionalHaveValue s
      (popScope (fst (pushScope gen))
         (emitExprInto init (StackAddress s) (snd (pushScope gen)))))"
  have g1: "next_block g1 = next_block gen" "InsertionPoint g1 = Some ip"
    "layout g1 = layout gen"
    "\<And>b. b \<noteq> ip \<Longrightarrow> insts (blocks g1 b) = insts (blocks gen b)"
    using ip by (simp_all add: g1_def prim_defs insts_insertInst)
  have "\<exists>es. insts (blocks g1 b) = insts (blocks gen b) @ map External es" for b
  proof (cases "b = ip")
    case True
    with ip show ?thesis
      by (auto simp: g1_def prim_defs insts_insertInst intro: exI [of _ "[_, _, _]"])
  next
    case False
    with g1(4) show ?thesis by (auto intro: exI [of _ "[]"])
  qed
  then have g1p: "pred_empty (last CB) g1 = pred_empty (last CB) gen"
    by (intro pred_empty_External g1(3))
  have tk: "rev (map OptAddr (take (Suc nb) buffers)) = s # rev (map OptAddr (take nb buffers))"
    using nb by (simp add: take_Suc_conv_app_nth s_def)
  from cb have lastCB: "last CB \<in> set CB" by simp
  note defs = emitStmtCondition_binding_def Let_def split_beta prim_defs insts_insertInst
  show ?thesis
  proof (cases "pred_empty (last CB) g1")
    case True
    note facts = step nb init pbd True [unfolded g1_def s_def] ip
    from True pe g1p have one: "length CB = 1" "insts (blocks gen (last CB)) = []" by simp_all
    then obtain b where b: "CB = [b]" by (cases CB) auto
    with ch one have nb0: "take nb buffers = []" by simp
    have CB': "CB' = CB" using facts by (auto simp: defs)
    have f: "next_block gen' = Suc (next_block gen)" "InsertionPoint gen' = Some (next_block gen)"
      "layout gen' = filter (\<lambda>b. b \<noteq> next_block gen) (layout gen) @ [next_block gen]"
      using facts by (auto simp: defs)
    have ib: "insts (blocks gen' b) = [DestroyAddrInst s]"
      using facts b cb one by (auto simp: defs s_def)
    have br: "CondBranchInst (OptionalHasValue s) (next_block gen) b \<in> set (insts (blocks gen' ip))"
      using facts b cb by (auto simp: defs s_def)
    have np: "\<not> pred_empty (last CB) gen'"
      unfolding pred_empty_def using br ip f(3) b by fastforce
    from b cb ip f ib np nb nb0 tk show ?thesis
      by (auto simp: condInv_def CB')
  next
    case False
    define F where "F = next_block gen"
    note facts = step nb init pbd False [unfolded g1_def s_def] ip
    have CB': "CB' = CB @ [F]" using facts by (auto simp: defs F_def)
    have f: "next_block gen' = Suc (Suc F)" "InsertionPoint gen' = Some (Suc F)"
      "layout gen' = filter (\<lambda>b. b \<noteq> Suc F) (layout gen @ [F]) @ [Suc F]"
      using facts by (auto simp: defs F_def)
    have iF: "insts (blocks gen' F) = [DestroyAddrInst s, BranchInst (last CB) []]"
      using facts by (auto simp: defs F_def s_def)
    have fr: "insts (blocks gen' b) = insts (blocks gen b)" if "b \<in> set CB" for b
      using facts that cb by (auto simp: defs F_def)
    have br: "CondBranchInst (OptionalHasValue s) (Suc F) F \<in> set (insts (blocks gen' ip))"
      using facts by (auto simp: defs F_def s_def)
    have np: "\<not> pred_empty F gen'"
      unfolding pred_empty_def using br ip f(3) by (fastforce simp: F_def)
    have ch': "cleanupChain gen' (rev CB' ) (rev (map OptAddr (take (nb + 1) buffers)))"
      using cb iF cleanupChain_cong [of "rev CB" gen' gen, OF fr] ch
      by (simp add: CB' tk cleanupChain_snoc hd_rev)
    have srt: "sorted_wrt (<) CB'"
      using cb by (auto simp: CB' sorted_wrt_append F_def)
    from cb ip f np nb ch' srt show ?thesis
      by (auto simp: condInv_def CB' F_def)
  qed
qed

lemma emitStmtCondition_loop_inv:
  "condInv b0 buffers CB nb gen \<Longrightarrow>
   emitStmtCondition_loop C buffers CB nb gen = Inr (CBs, gen') \<Longrightarrow>
   condInv b0 buffers CBs (nb + length (bindings C)) gen'"
proof (induction C buffers CB nb gen arbitrary: CBs gen' rule: emitStmtCondition_loop.induct)
  case (1 buffers CleanupBlocks nextBuffer gen)
  then show ?case by simp
next
  case (2 expr C buffers CleanupBlocks nextBuffer gen)
  from "2.IH" [OF condInv_expr [OF "2.prems"(1)]] "2.prems"(2) show ?case by simp
next
  case (3 binding C buffers CleanupBlocks nextBuffer gen)
  from "3.prems"(2) obtain CB1 g1 where
    step: "emitStmtCondition_binding binding buffers CleanupBlocks nextBuffer gen = Inr (CB1, g1)"
    and rest: "emitStmtCondition_loop C buffers CB1 (nextBuffer + 1) g1 = Inr (CBs, gen')"
    by (auto split: sum.splits)
  from "3.IH" [OF step refl condInv_binding [OF "3.prems"(1) step] rest] show ?case by simp
qed

lemma emitConditionalBindingBuffers_slots:
  "emitConditionalBindingBuffers C gen = Inr (buffers, gen') \<Longrightarrow>
     map PBD buffers = bindings C \<and> distinct (map OptAddr buffers) \<and>
     (\<forall>s \<in> set (map OptAddr buffers). next_slot gen \<le> s \<and> s < next_slot gen') \<and>
     next_slot gen \<le> next_slot gen'"
proof (induction C gen arbitrary: buffers gen' rule: emitConditionalBindingBuffers.induct)
  case (1 gen)
  then show ?case by simp
next
  case (2 E cond gen)
  then show ?case by simp
next
  case (3 CB cond gen)
  from "3.prems" obtain bs where
    r: "emitConditionalBindingBuffers cond (snd (emitTemporary gen)) = Inr (bs, gen')"
    and ok: "isConditional CB \<and> getInit CB \<noteq> None"
    and b: "buffers = ConditionalBinding CB (fst (emitTemporary gen)) # bs"
    by (auto split: if_splits sum.splits)
  from "3.IH" [OF _ r] ok b show ?case
    by (fastforce simp: prim_defs)
qed






subsection \<open>What a lowering adds to the graph\<close>

text \<open>
  Every builder operation, every part of a statement's lowering and, by induction over the
  statement, every \<open>visit\<close> that returns takes a well-formed state to one that \<open>extends\<close> it.
\<close>

lemma destBlocks_cong:
  "ReturnDest g' = ReturnDest g \<Longrightarrow> FailDest g' = FailDest g \<Longrightarrow>
   BreakContinueDestStack g' = BreakContinueDestStack g \<Longrightarrow> destBlocks g' = destBlocks g"
  by (simp add: destBlocks_def)

lemma wf_layout_iff:
  "wf_layout gen \<longleftrightarrow>
     (\<forall>b \<in> set (layout gen). b < next_block gen) \<and>
     (\<forall>b. InsertionPoint gen = Some b \<longrightarrow> b \<in> set (layout gen))"
  by (simp add: wf_layout_def split: option.splits)

lemma ext_refl: "wf_gen gen \<Longrightarrow> extends gen gen"
  by (auto simp: extends_def frame0_def grown_def wf_gen_def)

lemma fresh_inst_mono:
  assumes "fresh_inst b i" "next_block a \<le> next_block b" "next_slot a \<le> next_slot b"
    and "\<forall>t \<in> set (destBlocks b). t \<in> set (destBlocks a) \<or> next_block a \<le> t"
  shows "fresh_inst a i"
  using assms unfolding fresh_inst_def by (meson order_trans)

lemma grown_trans:
  assumes ab: "extends a b" and bc: "extends b c" and x: "x < next_block c"
  shows "grown a c x"
proof -
  from ab have wa: "wf_gen a" and fab: "frame0 a b"
    and dab: "\<forall>t \<in> set (destBlocks b). t \<in> set (destBlocks a) \<or> next_block a \<le> t"
    and gab: "x < next_block b \<Longrightarrow> grown a b x"
    and iab: "InsertionPoint b = None \<or> InsertionPoint b = InsertionPoint a \<or>
      (\<exists>y. InsertionPoint b = Some y \<and> next_block a \<le> y)"
    by (simp_all add: extends_def)
  from bc x have gbc: "grown b c x" by (simp add: extends_def)
  from fab have n: "next_block a \<le> next_block b" by (simp add: frame0_def)
  have mono: "fresh_inst a i" if "fresh_inst b i" for i
    using that fab dab by (intro fresh_inst_mono [of b i a]) (simp_all add: frame0_def)
  show ?thesis
  proof (cases "x < next_block a")
    case True
    with n have xb: "x < next_block b" by simp
    from gab xb True obtain n1 where n1: "insts (blocks b x) = insts (blocks a x) @ n1"
      "\<forall>i \<in> set n1. fresh_inst a i" "n1 \<noteq> [] \<longrightarrow> InsertionPoint a = Some x"
      by (auto simp: grown_def)
    from gbc xb obtain n2 where n2: "insts (blocks c x) = insts (blocks b x) @ n2"
      "\<forall>i \<in> set n2. fresh_inst b i" "n2 \<noteq> [] \<longrightarrow> InsertionPoint b = Some x"
      unfolding grown_def by auto
    from n2(3) iab True have "n2 \<noteq> [] \<longrightarrow> InsertionPoint a = Some x" by auto
    with n1 n2 mono True show ?thesis
      unfolding grown_def by (auto intro!: exI [of _ "n1 @ n2"])
  next
    case False
    show ?thesis
    proof (cases "x < next_block b")
      case True
      from gab True False have 1: "\<forall>i \<in> set (insts (blocks b x)). fresh_inst a i"
        by (simp add: grown_def)
      from True gbc obtain n2 where n2: "insts (blocks c x) = insts (blocks b x) @ n2"
        "\<forall>i \<in> set n2. fresh_inst b i"
        unfolding grown_def by auto
      with 1 mono False show ?thesis by (auto simp: grown_def)
    next
      case xb: False
      with gbc mono False show ?thesis by (auto simp: grown_def)
    qed
  qed
qed

lemma ext_trans [trans]:
  assumes ab: "extends a b" and bc: "extends b c"
  shows "extends a c"
proof -
  from ab bc have wa: "wf_gen a" "wf_gen c" "frame0 a c"
    by (auto simp: extends_def intro: frame0_trans)
  from ab bc have d: "\<forall>t \<in> set (destBlocks c). t \<in> set (destBlocks a) \<or> next_block a \<le> t"
    unfolding extends_def frame0_def by (meson order_trans)
  from ab bc have l: "set (layout a) \<subseteq> set (layout c)" by (auto simp: extends_def)
  from ab bc have l': "\<forall>x \<in> set (layout c). x \<in> set (layout a) \<or> next_block a \<le> x"
    unfolding extends_def frame0_def by (meson order_trans)
  from ab bc have i: "InsertionPoint c = None \<or> InsertionPoint c = InsertionPoint a \<or>
      (\<exists>b. InsertionPoint c = Some b \<and> next_block a \<le> b)"
    unfolding extends_def frame0_def by (metis order_trans)
  from wa d l l' i grown_trans [OF ab bc] show ?thesis by (simp add: extends_def)
qed

lemma inst_ok_mono:
  "inst_ok g i \<Longrightarrow> next_block g \<le> next_block g' \<Longrightarrow> next_slot g \<le> next_slot g'
     \<Longrightarrow> inst_ok g' i"
  unfolding inst_ok_def by (meson less_le_trans)

text \<open>One step of the builder, seen from an earlier state \<open>base\<close>.\<close>

lemma ext_step:
  assumes e: "extends base gen"
    and nb: "next_block gen \<le> next_block gen'" and ns: "next_slot gen \<le> next_slot gen'"
    and rd: "ReturnDest gen' = ReturnDest gen" "FailDest gen' = FailDest gen"
    and sd: "\<forall>t \<in> set (destBlocks gen').
               t \<in> set (destBlocks gen) \<or> (next_block base \<le> t \<and> t < next_block gen')"
    and l1: "\<forall>b \<in> set (layout gen). b \<in> set (layout gen') \<or> next_block base \<le> b"
    and l2: "\<forall>b \<in> set (layout gen').
               b \<in> set (layout gen) \<or> (next_block base \<le> b \<and> b < next_block gen')"
    and si: "\<forall>b < next_block gen'.
               (b < next_block gen \<and>
                (\<exists>new. insts (blocks gen' b) = insts (blocks gen b) @ new \<and>
                   (\<forall>i \<in> set new. fresh_inst base i \<and> inst_ok gen' i) \<and>
                   (new \<noteq> [] \<longrightarrow> InsertionPoint gen = Some b \<or> next_block base \<le> b))) \<or>
               (next_block base \<le> b \<and>
                (\<forall>i \<in> set (insts (blocks gen' b)).
                   (b < next_block gen \<and> i \<in> set (insts (blocks gen b))) \<or>
                   (fresh_inst base i \<and> inst_ok gen' i)))"
    and ip: "InsertionPoint gen' = None \<or> InsertionPoint gen' = InsertionPoint gen \<or>
               (\<exists>b. InsertionPoint gen' = Some b \<and> next_block base \<le> b)"
    and ipl: "\<forall>b. InsertionPoint gen' = Some b \<longrightarrow> b \<in> set (layout gen')"
  shows "extends base gen'"
proof -
  from e have wb: "wf_gen base" and wg: "wf_gen gen" and f: "frame0 base gen"
    and ed: "\<forall>t \<in> set (destBlocks gen). t \<in> set (destBlocks base) \<or> next_block base \<le> t"
    and el: "set (layout base) \<subseteq> set (layout gen)"
    and el': "\<forall>b \<in> set (layout gen). b \<in> set (layout base) \<or> next_block base \<le> b"
    and eg: "\<And>b. b < next_block gen \<Longrightarrow> grown base gen b"
    and ei: "InsertionPoint gen = None \<or> InsertionPoint gen = InsertionPoint base \<or>
      (\<exists>b. InsertionPoint gen = Some b \<and> next_block base \<le> b)"
    by (simp_all add: extends_def)
  from wb have lb: "\<forall>b \<in> set (layout base). b < next_block base"
    by (simp add: wf_gen_def wf_layout_def)
  from wg have lg: "\<forall>b \<in> set (layout gen). b < next_block gen"
    and og: "\<And>b i. b < next_block gen \<Longrightarrow> i \<in> set (insts (blocks gen b)) \<Longrightarrow> inst_ok gen i"
    and dg: "\<forall>t \<in> set (destBlocks gen). t < next_block gen"
    by (simp_all add: wf_gen_def wf_layout_def)
  from f have fb: "next_block base \<le> next_block gen" "next_slot base \<le> next_slot gen"
    by (simp_all add: frame0_def)
  have ok: "inst_ok gen' i" if "inst_ok gen i" for i
    using that nb ns by (rule inst_ok_mono)
  have cases: thesis
    if b: "b < next_block gen'"
      and old: "\<And>new. b < next_block gen \<Longrightarrow>
        insts (blocks gen' b) = insts (blocks gen b) @ new \<Longrightarrow>
        \<forall>i \<in> set new. fresh_inst base i \<and> inst_ok gen' i \<Longrightarrow>
        new \<noteq> [] \<longrightarrow> InsertionPoint gen = Some b \<or> next_block base \<le> b \<Longrightarrow> thesis"
      and new: "next_block base \<le> b \<Longrightarrow>
        \<forall>i \<in> set (insts (blocks gen' b)).
           (b < next_block gen \<and> i \<in> set (insts (blocks gen b))) \<or>
           (fresh_inst base i \<and> inst_ok gen' i) \<Longrightarrow> thesis"
    for b thesis
    using si [rule_format, OF b] old new by blast
  have "b < next_block gen'" if "b \<in> set (layout gen')" for b
    using l2 lg nb that by (meson less_le_trans)
  with ipl have 1: "wf_layout gen'"
    by (simp add: wf_layout_iff)
  have 2: "inst_ok gen' i" if b: "b < next_block gen'" and i: "i \<in> set (insts (blocks gen' b))"
    for b i
    using b
  proof (rule cases)
    fix new
    assume "b < next_block gen" "insts (blocks gen' b) = insts (blocks gen b) @ new"
      "\<forall>i \<in> set new. fresh_inst base i \<and> inst_ok gen' i"
    with i og ok show ?thesis by auto
  next
    assume "\<forall>i \<in> set (insts (blocks gen' b)).
           (b < next_block gen \<and> i \<in> set (insts (blocks gen b))) \<or>
           (fresh_inst base i \<and> inst_ok gen' i)"
    with i og ok show ?thesis by blast
  qed
  have 3: "\<forall>t \<in> set (destBlocks gen'). t < next_block gen'"
    using sd dg nb by (meson less_le_trans)
  have 4: "frame0 base gen'"
    using f nb ns rd by (simp add: frame0_def)
  have 5: "\<forall>t \<in> set (destBlocks gen'). t \<in> set (destBlocks base) \<or> next_block base \<le> t"
    using sd ed by blast
  have 6: "set (layout base) \<subseteq> set (layout gen')"
    using el l1 lb by fastforce
  have 7: "\<forall>b \<in> set (layout gen'). b \<in> set (layout base) \<or> next_block base \<le> b"
    using l2 el' by blast
  have 8: "grown base gen' b" if b: "b < next_block gen'" for b
  proof (cases "b < next_block base")
    case True
    with fb have bg: "b < next_block gen" by simp
    from True have bl: "\<not> next_block base \<le> b" by simp
    from eg [OF bg] True obtain n0 where n0: "insts (blocks gen b) = insts (blocks base b) @ n0"
      "\<forall>i \<in> set n0. fresh_inst base i" "n0 \<noteq> [] \<longrightarrow> InsertionPoint base = Some b"
      unfolding grown_def by (metis (no_types, lifting))
    from si [rule_format, OF b] bl
    obtain new where new: "insts (blocks gen' b) = insts (blocks gen b) @ new"
      "\<forall>i \<in> set new. fresh_inst base i" "new \<noteq> [] \<longrightarrow> InsertionPoint gen = Some b"
      by blast
    from new(3) ei bl have "new \<noteq> [] \<longrightarrow> InsertionPoint base = Some b" by auto
    with n0 new True show ?thesis
      unfolding grown_def by (auto intro!: exI [of _ "n0 @ new"])
  next
    case False
    have old: "fresh_inst base j" if "b < next_block gen" "j \<in> set (insts (blocks gen b))" for j
      using eg that False unfolding grown_def by auto
    have "fresh_inst base i" if i: "i \<in> set (insts (blocks gen' b))" for i
      using b
    proof (rule cases)
      fix new
      assume "b < next_block gen" "insts (blocks gen' b) = insts (blocks gen b) @ new"
        "\<forall>i \<in> set new. fresh_inst base i \<and> inst_ok gen' i"
      with i old show ?thesis by auto
    next
      assume "\<forall>i \<in> set (insts (blocks gen' b)).
           (b < next_block gen \<and> i \<in> set (insts (blocks gen b))) \<or>
           (fresh_inst base i \<and> inst_ok gen' i)"
      with i old show ?thesis by blast
    qed
    with False show ?thesis by (simp add: grown_def)
  qed
  have 9: "InsertionPoint gen' = None \<or> InsertionPoint gen' = InsertionPoint base \<or>
      (\<exists>b. InsertionPoint gen' = Some b \<and> next_block base \<le> b)"
    using ip ei by auto
  from wb 1 2 3 4 5 6 7 8 9 show ?thesis
    by (simp add: extends_def wf_gen_def)
qed

lemma createBasicBlock_fields [simp]:
  "fst (createBasicBlock gen) = next_block gen"
  "next_block (snd (createBasicBlock gen)) = Suc (next_block gen)"
  "next_slot (snd (createBasicBlock gen)) = next_slot gen"
  "layout (snd (createBasicBlock gen)) = layout gen @ [next_block gen]"
  "InsertionPoint (snd (createBasicBlock gen)) = InsertionPoint gen"
  "insts (blocks (snd (createBasicBlock gen)) b) =
     (if b = next_block gen then [] else insts (blocks gen b))"
  "BreakContinueDestStack (snd (createBasicBlock gen)) = BreakContinueDestStack gen"
  "ReturnDest (snd (createBasicBlock gen)) = ReturnDest gen"
  "FailDest (snd (createBasicBlock gen)) = FailDest gen"
  "CleanupsDepth (snd (createBasicBlock gen)) = CleanupsDepth gen"
  by (simp_all add: createBasicBlock_eq)

lemma createBranch_fields [simp]:
  "next_block (createBranch t args gen) = next_block gen"
  "next_slot (createBranch t args gen) = next_slot gen"
  "layout (createBranch t args gen) = layout gen"
  "InsertionPoint (createBranch t args gen) = None"
  "insts (blocks (createBranch t args gen) b) =
     (if InsertionPoint gen = Some b then insts (blocks gen b) @ [BranchInst t args]
      else insts (blocks gen b))"
  "BreakContinueDestStack (createBranch t args gen) = BreakContinueDestStack gen"
  "ReturnDest (createBranch t args gen) = ReturnDest gen"
  "FailDest (createBranch t args gen) = FailDest gen"
  "CleanupsDepth (createBranch t args gen) = CleanupsDepth gen"
  by (simp_all add: createBranch_def insertTerminator_def clearInsertionPoint_def
      insts_insertInst)

lemma createCondBranch_fields [simp]:
  "next_block (createCondBranch v t f gen) = next_block gen"
  "next_slot (createCondBranch v t f gen) = next_slot gen"
  "layout (createCondBranch v t f gen) = layout gen"
  "InsertionPoint (createCondBranch v t f gen) = None"
  "insts (blocks (createCondBranch v t f gen) b) =
     (if InsertionPoint gen = Some b then insts (blocks gen b) @ [CondBranchInst v t f]
      else insts (blocks gen b))"
  "BreakContinueDestStack (createCondBranch v t f gen) = BreakContinueDestStack gen"
  "ReturnDest (createCondBranch v t f gen) = ReturnDest gen"
  "FailDest (createCondBranch v t f gen) = FailDest gen"
  "CleanupsDepth (createCondBranch v t f gen) = CleanupsDepth gen"
  by (simp_all add: createCondBranch_def insertTerminator_def clearInsertionPoint_def
      insts_insertInst)

lemma emitBlock_fields [simp]:
  "next_block (emitBlock bb gen) = next_block gen"
  "next_slot (emitBlock bb gen) = next_slot gen"
  "layout (emitBlock bb gen) = filter (\<lambda>b. b \<noteq> bb) (layout gen) @ [bb]"
  "InsertionPoint (emitBlock bb gen) = Some bb"
  "blocks (emitBlock bb gen) = blocks gen"
  "BreakContinueDestStack (emitBlock bb gen) = BreakContinueDestStack gen"
  "ReturnDest (emitBlock bb gen) = ReturnDest gen"
  "FailDest (emitBlock bb gen) = FailDest gen"
  "CleanupsDepth (emitBlock bb gen) = CleanupsDepth gen"
  by (simp_all add: emitBlock_def)

lemma eraseFromParent_fields [simp]:
  "next_block (eraseFromParent bb gen) = next_block gen"
  "next_slot (eraseFromParent bb gen) = next_slot gen"
  "layout (eraseFromParent bb gen) = filter (\<lambda>b. b \<noteq> bb) (layout gen)"
  "InsertionPoint (eraseFromParent bb gen) = InsertionPoint gen"
  "blocks (eraseFromParent bb gen) = blocks gen"
  "BreakContinueDestStack (eraseFromParent bb gen) = BreakContinueDestStack gen"
  "ReturnDest (eraseFromParent bb gen) = ReturnDest gen"
  "FailDest (eraseFromParent bb gen) = FailDest gen"
  "CleanupsDepth (eraseFromParent bb gen) = CleanupsDepth gen"
  by (simp_all add: eraseFromParent_def)

lemma pushScope_fields [simp]:
  "fst (pushScope gen) = CleanupsDepth gen"
  "next_block (snd (pushScope gen)) = next_block gen"
  "next_slot (snd (pushScope gen)) = next_slot gen"
  "layout (snd (pushScope gen)) = layout gen"
  "InsertionPoint (snd (pushScope gen)) = InsertionPoint gen"
  "blocks (snd (pushScope gen)) = blocks gen"
  "BreakContinueDestStack (snd (pushScope gen)) = BreakContinueDestStack gen"
  "ReturnDest (snd (pushScope gen)) = ReturnDest gen"
  "FailDest (snd (pushScope gen)) = FailDest gen"
  "CleanupsDepth (snd (pushScope gen)) = Suc (CleanupsDepth gen)"
  by (simp_all add: pushScope_def)

lemma popScope_fields [simp]:
  "next_block (popScope d gen) = next_block gen"
  "next_slot (popScope d gen) = next_slot gen"
  "layout (popScope d gen) = layout gen"
  "InsertionPoint (popScope d gen) = InsertionPoint gen"
  "insts (blocks (popScope d gen) b) =
     (if InsertionPoint gen = Some b
      then insts (blocks gen b) @ [External (EmitCleanups (CleanupsDepth gen) d)]
      else insts (blocks gen b))"
  "BreakContinueDestStack (popScope d gen) = BreakContinueDestStack gen"
  "ReturnDest (popScope d gen) = ReturnDest gen"
  "FailDest (popScope d gen) = FailDest gen"
  "CleanupsDepth (popScope d gen) = d"
  by (simp_all add: popScope_def insts_insertInst)

lemma push_back_fields [simp]:
  "next_block (push_back elt gen) = next_block gen"
  "next_slot (push_back elt gen) = next_slot gen"
  "layout (push_back elt gen) = layout gen"
  "InsertionPoint (push_back elt gen) = InsertionPoint gen"
  "blocks (push_back elt gen) = blocks gen"
  "BreakContinueDestStack (push_back elt gen) = BreakContinueDestStack gen @ [elt]"
  "ReturnDest (push_back elt gen) = ReturnDest gen"
  "FailDest (push_back elt gen) = FailDest gen"
  "CleanupsDepth (push_back elt gen) = CleanupsDepth gen"
  by (simp_all add: push_back_def)

lemma pop_back_fields [simp]:
  "next_block (pop_back gen) = next_block gen"
  "next_slot (pop_back gen) = next_slot gen"
  "layout (pop_back gen) = layout gen"
  "InsertionPoint (pop_back gen) = InsertionPoint gen"
  "blocks (pop_back gen) = blocks gen"
  "BreakContinueDestStack (pop_back gen) = butlast (BreakContinueDestStack gen)"
  "ReturnDest (pop_back gen) = ReturnDest gen"
  "FailDest (pop_back gen) = FailDest gen"
  "CleanupsDepth (pop_back gen) = CleanupsDepth gen"
  by (simp_all add: pop_back_def)

lemma collab_fields [simp]:
  "fst (emitRValue E gen) = RValueOf E"
  "snd (emitRValue E gen) = insertInst (External (EmitRValue E)) gen"
  "fst (emitDoesOptionalHaveValue a gen) = OptionalHasValue a"
  "snd (emitDoesOptionalHaveValue a gen) = insertInst (External (EmitDoesOptionalHaveValue a)) gen"
  by (simp_all add: emitRValue_def emitDoesOptionalHaveValue_def)

lemma emitTemporaryAllocation_fields [simp]:
  "fst (emitTemporaryAllocation gen) = next_slot gen"
  "next_block (snd (emitTemporaryAllocation gen)) = next_block gen"
  "next_slot (snd (emitTemporaryAllocation gen)) = Suc (next_slot gen)"
  "layout (snd (emitTemporaryAllocation gen)) = layout gen"
  "InsertionPoint (snd (emitTemporaryAllocation gen)) = InsertionPoint gen"
  "insts (blocks (snd (emitTemporaryAllocation gen)) b) =
     (if InsertionPoint gen = Some b then insts (blocks gen b) @ [AllocStackInst (next_slot gen)]
      else insts (blocks gen b))"
  "BreakContinueDestStack (snd (emitTemporaryAllocation gen)) = BreakContinueDestStack gen"
  "ReturnDest (snd (emitTemporaryAllocation gen)) = ReturnDest gen"
  "FailDest (snd (emitTemporaryAllocation gen)) = FailDest gen"
  "CleanupsDepth (snd (emitTemporaryAllocation gen)) = CleanupsDepth gen"
  by (simp_all add: emitTemporaryAllocation_eq insts_insertInst)

lemmas collab_defs = emitExprInto_def emitIgnoredExpr_def visitDecl_def
  emitPatternBindingInitialization_def emitUncheckedGetOptionalValueFrom_def

lemma ext_same:
  assumes e: "extends base gen"
    and "blocks gen' = blocks gen" "layout gen' = layout gen" "next_block gen' = next_block gen"
    and "next_slot gen' = next_slot gen" "InsertionPoint gen' = InsertionPoint gen"
    and "ReturnDest gen' = ReturnDest gen" "FailDest gen' = FailDest gen"
    and "set (BreakContinueDestStack gen') \<subseteq> set (BreakContinueDestStack gen)"
  shows "extends base gen'"
proof (rule ext_step [OF e])
  from e have "wf_layout gen" by (simp add: extends_def wf_gen_def)
  with assms show "\<forall>b. InsertionPoint gen' = Some b \<longrightarrow> b \<in> set (layout gen')"
    by (simp add: wf_layout_iff)
  from assms show "\<forall>t \<in> set (destBlocks gen').
      t \<in> set (destBlocks gen) \<or> (next_block base \<le> t \<and> t < next_block gen')"
    by (auto simp: destBlocks_def)
qed (use assms in auto)

lemma ext_pushScope: "extends base gen \<Longrightarrow> extends base (snd (pushScope gen))"
  by (erule ext_same) (simp_all add: pushScope_def)

lemma ext_diagnose: "extends base gen \<Longrightarrow> extends base (diagnose d gen)"
  by (erule ext_same) (simp_all add: diagnose_def)

lemma ext_pop_back: "extends base gen \<Longrightarrow> extends base (pop_back gen)"
  by (erule ext_same) (auto simp: pop_back_def dest: in_set_butlastD)

lemma ext_clearInsertionPoint: "extends base gen \<Longrightarrow> extends base (clearInsertionPoint gen)"
  by (erule ext_step) (auto simp: clearInsertionPoint_def destBlocks_def)

lemma ext_insertInst:
  assumes e: "extends base gen" and f: "fresh_inst base i" and ok: "inst_ok gen i"
  shows "extends base (insertInst i gen)"
proof (rule ext_step [OF e])
  from e have "wf_layout gen" by (simp add: extends_def wf_gen_def)
  then show "\<forall>b. InsertionPoint (insertInst i gen) = Some b \<longrightarrow>
      b \<in> set (layout (insertInst i gen))"
    by (simp add: wf_layout_iff)
  have "inst_ok (insertInst i gen) = inst_ok gen"
    by (simp add: inst_ok_def fun_eq_iff)
  with f ok show "\<forall>b < next_block (insertInst i gen).
      (b < next_block gen \<and>
       (\<exists>new. insts (blocks (insertInst i gen) b) = insts (blocks gen b) @ new \<and>
          (\<forall>i' \<in> set new. fresh_inst base i' \<and> inst_ok (insertInst i gen) i') \<and>
          (new \<noteq> [] \<longrightarrow> InsertionPoint gen = Some b \<or> next_block base \<le> b))) \<or>
      (next_block base \<le> b \<and>
       (\<forall>i' \<in> set (insts (blocks (insertInst i gen) b)).
          (b < next_block gen \<and> i' \<in> set (insts (blocks gen b))) \<or>
          (fresh_inst base i' \<and> inst_ok (insertInst i gen) i')))"
    by (simp add: insts_insertInst)
qed (simp_all add: destBlocks_def)

lemma fresh_External [simp]: "fresh_inst base (External e)" "inst_ok gen (External e)"
  "fresh_inst base (StrongReleaseInst v)" "inst_ok gen (StrongReleaseInst v)"
  by (simp_all add: fresh_inst_def inst_ok_def)

lemma ext_popScope:
  assumes "extends base gen"
  shows "extends base (popScope d gen)"
proof -
  from assms have "extends base (insertInst (External (EmitCleanups (CleanupsDepth gen) d)) gen)"
    by (rule ext_insertInst) simp_all
  then show ?thesis
    unfolding popScope_def by (rule ext_same) simp_all
qed

lemma ext_wf_layout: "extends base gen \<Longrightarrow> wf_layout gen"
  by (simp add: extends_def wf_gen_def)

lemma ext_layout_less: "extends base gen \<Longrightarrow> b \<in> set (layout gen) \<Longrightarrow> b < next_block gen"
  by (simp add: extends_def wf_gen_def wf_layout_iff)

lemma ext_ip_layout: "extends base gen \<Longrightarrow> InsertionPoint gen = Some b \<Longrightarrow> b \<in> set (layout gen)"
  by (simp add: extends_def wf_gen_def wf_layout_iff)

lemma ext_next_block: "extends base gen \<Longrightarrow> next_block base \<le> next_block gen"
  by (simp add: extends_def frame0_def)

lemma ext_next_slot: "extends base gen \<Longrightarrow> next_slot base \<le> next_slot gen"
  by (simp add: extends_def frame0_def)

lemma ext_createBranch:
  assumes "extends base gen" and "t \<in> set (destBlocks base) \<or> next_block base \<le> t"
    and "t < next_block gen"
  shows "extends base (createBranch t args gen)"
  unfolding createBranch_def insertTerminator_def
  using assms by (intro ext_clearInsertionPoint ext_insertInst) (simp_all add: fresh_inst_def inst_ok_def)

lemma ext_createCondBranch:
  assumes "extends base gen" and "t \<in> set (destBlocks base) \<or> next_block base \<le> t"
    and "t < next_block gen" and "f \<in> set (destBlocks base) \<or> next_block base \<le> f"
    and "f < next_block gen"
  shows "extends base (createCondBranch v t f gen)"
  unfolding createCondBranch_def insertTerminator_def
  using assms by (intro ext_clearInsertionPoint ext_insertInst) (auto simp: fresh_inst_def inst_ok_def)

lemma ext_createBasicBlock:
  assumes e: "extends base gen"
  shows "extends base (snd (createBasicBlock gen))"
proof (rule ext_step [OF e])
  let ?g = "snd (createBasicBlock gen)"
  note l = ext_layout_less [OF e] and n = ext_next_block [OF e]
  show "\<forall>b < next_block ?g.
      (b < next_block gen \<and>
       (\<exists>new. insts (blocks ?g b) = insts (blocks gen b) @ new \<and>
          (\<forall>i' \<in> set new. fresh_inst base i' \<and> inst_ok ?g i') \<and>
          (new \<noteq> [] \<longrightarrow> InsertionPoint gen = Some b \<or> next_block base \<le> b))) \<or>
      (next_block base \<le> b \<and>
       (\<forall>i' \<in> set (insts (blocks ?g b)).
          (b < next_block gen \<and> i' \<in> set (insts (blocks gen b))) \<or>
          (fresh_inst base i' \<and> inst_ok ?g i')))"
    using l n by (auto simp: createBasicBlock_eq)
  show "\<forall>b. InsertionPoint ?g = Some b \<longrightarrow> b \<in> set (layout ?g)"
    using ext_ip_layout [OF e] by (simp add: createBasicBlock_eq)
qed (use ext_next_block [OF e] in \<open>auto simp: createBasicBlock_eq destBlocks_def\<close>)

lemma ext_emitBlock:
  assumes e: "extends base gen" and bb: "next_block base \<le> bb" "bb < next_block gen"
  shows "extends base (emitBlock bb gen)"
  by (rule ext_step [OF e]) (use bb in \<open>auto simp: emitBlock_def destBlocks_def\<close>)

lemma ext_emitBlockAt:
  assumes e: "extends base gen" and bb: "next_block base \<le> bb" "bb < next_block gen"
  shows "extends base (emitBlockAt bb gen)"
proof -
  have "extends base (emitBlock bb (createBranch bb [] gen))"
    using e bb
    by (intro ext_emitBlock ext_createBranch) (simp_all add: prim_defs)
  with e bb show ?thesis
    by (simp add: emitBlockAt_def ext_emitBlock)
qed

lemma ext_eraseFromParent:
  assumes e: "extends base gen" and bb: "next_block base \<le> bb" "InsertionPoint gen \<noteq> Some bb"
  shows "extends base (eraseFromParent bb gen)"
proof (rule ext_step [OF e])
  show "\<forall>b. InsertionPoint (eraseFromParent bb gen) = Some b \<longrightarrow>
      b \<in> set (layout (eraseFromParent bb gen))"
    using ext_ip_layout [OF e] bb by (auto simp: eraseFromParent_def)
qed (use bb in \<open>auto simp: eraseFromParent_def destBlocks_def\<close>)

lemma ext_appendInst:
  assumes e: "extends base gen" and bb: "next_block base \<le> bb"
    and f: "fresh_inst base i" and ok: "inst_ok gen i"
  shows "extends base (appendInst bb i gen)"
proof (rule ext_step [OF e])
  let ?g = "appendInst bb i gen"
  have "inst_ok ?g = inst_ok gen"
    by (simp add: inst_ok_def fun_eq_iff appendInst_def)
  with f ok bb show "\<forall>b < next_block ?g.
      (b < next_block gen \<and>
       (\<exists>new. insts (blocks ?g b) = insts (blocks gen b) @ new \<and>
          (\<forall>i' \<in> set new. fresh_inst base i' \<and> inst_ok ?g i') \<and>
          (new \<noteq> [] \<longrightarrow> InsertionPoint gen = Some b \<or> next_block base \<le> b))) \<or>
      (next_block base \<le> b \<and>
       (\<forall>i' \<in> set (insts (blocks ?g b)).
          (b < next_block gen \<and> i' \<in> set (insts (blocks gen b))) \<or>
          (fresh_inst base i' \<and> inst_ok ?g i')))"
    by (simp add: appendInst_def)
  show "\<forall>b. InsertionPoint ?g = Some b \<longrightarrow> b \<in> set (layout ?g)"
    using ext_ip_layout [OF e] by (simp add: appendInst_def)
qed (auto simp: appendInst_def destBlocks_def)

lemma ext_prependInst:
  assumes e: "extends base gen" and bb: "next_block base \<le> bb"
    and f: "fresh_inst base i" and ok: "inst_ok gen i"
  shows "extends base (prependInst bb i gen)"
proof (rule ext_step [OF e])
  let ?g = "prependInst bb i gen"
  have "inst_ok ?g = inst_ok gen"
    by (simp add: inst_ok_def fun_eq_iff prependInst_def)
  with f ok bb show "\<forall>b < next_block ?g.
      (b < next_block gen \<and>
       (\<exists>new. insts (blocks ?g b) = insts (blocks gen b) @ new \<and>
          (\<forall>i' \<in> set new. fresh_inst base i' \<and> inst_ok ?g i') \<and>
          (new \<noteq> [] \<longrightarrow> InsertionPoint gen = Some b \<or> next_block base \<le> b))) \<or>
      (next_block base \<le> b \<and>
       (\<forall>i' \<in> set (insts (blocks ?g b)).
          (b < next_block gen \<and> i' \<in> set (insts (blocks gen b))) \<or>
          (fresh_inst base i' \<and> inst_ok ?g i')))"
    by (auto simp: prependInst_def)
  show "\<forall>b. InsertionPoint ?g = Some b \<longrightarrow> b \<in> set (layout ?g)"
    using ext_ip_layout [OF e] by (simp add: prependInst_def)
qed (auto simp: prependInst_def destBlocks_def)

lemma ext_fold_addArgument:
  assumes e: "extends base gen"
  shows "extends base (fold (addArgument bb) tys gen)"
proof (rule ext_step [OF e])
  let ?g = "fold (addArgument bb) tys gen"
  have "inst_ok ?g = inst_ok gen"
    by (simp add: inst_ok_def fun_eq_iff)
  show "\<forall>b. InsertionPoint ?g = Some b \<longrightarrow> b \<in> set (layout ?g)"
    using ext_ip_layout [OF e] by simp
qed (auto simp: destBlocks_def)

lemma ext_push_back:
  assumes e: "extends base gen"
    and "next_block base \<le> b1" "b1 < next_block gen" "next_block base \<le> b2" "b2 < next_block gen"
  shows "extends base (push_back (S, JumpDest b1 d1, JumpDest b2 d2) gen)"
proof (rule ext_step [OF e])
  let ?g = "push_back (S, JumpDest b1 d1, JumpDest b2 d2) gen"
  show "\<forall>b. InsertionPoint ?g = Some b \<longrightarrow> b \<in> set (layout ?g)"
    using ext_ip_layout [OF e] by (simp add: push_back_def)
qed (use assms in \<open>auto simp: push_back_def destBlocks_def\<close>)

lemma ext_emitTemporaryAllocation:
  assumes e: "extends base gen"
  shows "extends base (snd (emitTemporaryAllocation gen))"
proof (rule ext_step [OF e])
  let ?g = "snd (emitTemporaryAllocation gen)"
  from ext_next_slot [OF e]
  show "\<forall>b < next_block ?g.
      (b < next_block gen \<and>
       (\<exists>new. insts (blocks ?g b) = insts (blocks gen b) @ new \<and>
          (\<forall>i' \<in> set new. fresh_inst base i' \<and> inst_ok ?g i') \<and>
          (new \<noteq> [] \<longrightarrow> InsertionPoint gen = Some b \<or> next_block base \<le> b))) \<or>
      (next_block base \<le> b \<and>
       (\<forall>i' \<in> set (insts (blocks ?g b)).
          (b < next_block gen \<and> i' \<in> set (insts (blocks gen b))) \<or>
          (fresh_inst base i' \<and> inst_ok ?g i')))"
    by (simp add: emitTemporaryAllocation_eq insts_insertInst fresh_inst_def inst_ok_def)
  show "\<forall>b. InsertionPoint ?g = Some b \<longrightarrow> b \<in> set (layout ?g)"
    using ext_ip_layout [OF e] by (simp add: emitTemporaryAllocation_eq)
qed (auto simp: emitTemporaryAllocation_eq destBlocks_def)

lemma ext_emitBranchAndCleanups:
  assumes e: "extends base gen" and d: "getBlock dest \<in> set (destBlocks gen)"
    and r: "emitBranchAndCleanups dest args gen = Inr gen'"
  shows "extends base gen'"
proof -
  from e d have 1: "getBlock dest \<in> set (destBlocks base) \<or> next_block base \<le> getBlock dest"
    and 2: "getBlock dest < next_block gen"
    by (auto simp: extends_def wf_gen_def)
  from r have "gen' = createBranch (getBlock dest) args
      (insertInst (External (EmitCleanups (CleanupsDepth gen) (getDepth dest))) gen)"
    by (simp add: emitBranchAndCleanups_def split: if_splits)
  with e 1 2 show ?thesis
    by (simp add: ext_createBranch ext_insertInst)
qed

lemma ext_collab:
  "extends base gen \<Longrightarrow> extends base (snd (emitRValue E gen))"
  "extends base gen \<Longrightarrow> extends base (emitExprInto E addr gen)"
  "extends base gen \<Longrightarrow> extends base (emitIgnoredExpr E gen)"
  "extends base gen \<Longrightarrow> extends base (visitDecl D gen)"
  "extends base gen \<Longrightarrow> extends base (snd (emitDoesOptionalHaveValue a gen))"
  "extends base gen \<Longrightarrow> extends base (emitPatternBindingInitialization P gen)"
  "extends base gen \<Longrightarrow> extends base (emitUncheckedGetOptionalValueFrom a P gen)"
  by (simp_all add: emitRValue_def emitExprInto_def emitIgnoredExpr_def visitDecl_def
      emitDoesOptionalHaveValue_def emitPatternBindingInitialization_def
      emitUncheckedGetOptionalValueFrom_def ext_insertInst)

lemmas ext_intros = ext_collab ext_pushScope ext_popScope ext_diagnose ext_pop_back
  ext_clearInsertionPoint ext_createBranch ext_createCondBranch ext_createBasicBlock
  ext_emitBlock ext_emitBlockAt ext_appendInst ext_prependInst ext_fold_addArgument
  ext_push_back ext_emitTemporaryAllocation

lemma ext_emitConditionalBindingBuffers:
  "emitConditionalBindingBuffers cond gen = Inr (buffers, gen') \<Longrightarrow> extends base gen \<Longrightarrow>
     extends base gen'"
proof (induction cond gen arbitrary: buffers gen' rule: emitConditionalBindingBuffers.induct)
  case (1 gen)
  then show ?case by simp
next
  case (2 E cond gen)
  then show ?case by simp
next
  case (3 CB cond gen)
  from "3.prems" obtain bs where
    r: "emitConditionalBindingBuffers cond (snd (emitTemporary gen)) = Inr (bs, gen')"
    and ok: "isConditional CB \<and> getInit CB \<noteq> None"
    by (auto split: if_splits sum.splits)
  from "3.prems"(2) have "extends base (snd (emitTemporary gen))"
    unfolding emitTemporary_def by (rule ext_emitTemporaryAllocation)
  with "3.IH" r ok show ?case by blast
qed

lemma emitConditionalBindingBuffers_fields:
  "emitConditionalBindingBuffers cond gen = Inr (buffers, gen') \<Longrightarrow>
     layout gen' = layout gen \<and> next_block gen' = next_block gen \<and>
     InsertionPoint gen' = InsertionPoint gen"
proof (induction cond gen arbitrary: buffers gen' rule: emitConditionalBindingBuffers.induct)
  case (1 gen)
  then show ?case by simp
next
  case (2 E cond gen)
  then show ?case by simp
next
  case (3 CB cond gen)
  from "3.prems" obtain bs where
    r: "emitConditionalBindingBuffers cond (snd (emitTemporary gen)) = Inr (bs, gen')"
    and ok: "isConditional CB \<and> getInit CB \<noteq> None"
    by (auto split: if_splits sum.splits)
  from "3.IH" [OF _ r] ok show ?case by (simp add: prim_defs)
qed

lemma ext_emitConditionalPatternBindings:
  "extends base gen \<Longrightarrow> extends base (emitConditionalPatternBindings buffers gen)"
proof (induction buffers arbitrary: gen)
  case Nil
  then show ?case by simp
next
  case (Cons CB buffers)
  have "extends base (emitConditionalPatternBinding CB gen)"
    unfolding emitConditionalPatternBinding_def Let_def split_beta
    by (intro ext_intros Cons.prems)
  then show ?case
    using Cons.IH by simp
qed

lemma emitConditionalPatternBindings_fields [simp]:
  "layout (emitConditionalPatternBindings buffers gen) = layout gen"
  "next_block (emitConditionalPatternBindings buffers gen) = next_block gen"
  "next_slot (emitConditionalPatternBindings buffers gen) = next_slot gen"
  "InsertionPoint (emitConditionalPatternBindings buffers gen) = InsertionPoint gen"
  by (induction buffers arbitrary: gen;
      simp add: emitConditionalPatternBinding_def prim_defs Let_def split_beta)+

lemma ext_emitStmtCondition_expr:
  assumes e: "extends base gen" and cb: "next_block base \<le> last CB" "last CB < next_block gen"
  shows "extends base (emitStmtCondition_expr expr CB gen)"
proof -
  from cb show ?thesis
    unfolding emitStmtCondition_expr_def Let_def split_beta
    by (intro ext_intros e) (simp_all add: prim_defs ext_next_block [OF e] le_SucI)
qed

lemma ext_emitStmtCondition_binding:
  assumes step: "emitStmtCondition_binding binding buffers CB nb gen = Inr (CB', gen')"
    and e: "extends base gen"
    and cb: "CB \<noteq> []" "\<forall>b \<in> set CB. next_block base \<le> b \<and> b < next_block gen"
    and bf: "\<forall>b \<in> set buffers. next_slot base \<le> OptAddr b \<and> OptAddr b < next_slot gen"
  shows "extends base gen' \<and> CB' \<noteq> [] \<and>
    (\<forall>b \<in> set CB'. next_block base \<le> b \<and> b < next_block gen') \<and>
    next_slot gen' = next_slot gen"
proof -
  from step obtain init where nb: "nb < length buffers" and init: "getInit binding = Some init"
    and pbd: "PBD (buffers ! nb) = binding"
    by (auto simp: emitStmtCondition_binding_def split: if_splits option.splits)
  define s where "s = OptAddr (buffers ! nb)"
  define g0 where "g0 = popScope (fst (pushScope gen))
         (emitExprInto init (StackAddress s) (snd (pushScope gen)))"
  define hv where "hv = fst (emitDoesOptionalHaveValue s g0)"
  define g1 where "g1 = snd (emitDoesOptionalHaveValue s g0)"
  note defs = s_def g0_def hv_def g1_def
  have e1: "extends base g1"
    unfolding defs by (intro ext_intros e)
  have f1: "layout g1 = layout gen" "next_block g1 = next_block gen"
    "next_slot g1 = next_slot gen"
    by (simp_all add: defs prim_defs)
  from bf nb have s: "next_slot base \<le> s" "s < next_slot g1"
    by (simp_all add: s_def f1)
  from cb have l: "next_block base \<le> last CB" "last CB < next_block g1"
    by (simp_all add: f1)
  note ll = l(2)
  note n = ext_next_block [OF e1]
  have d: "fresh_inst base (DestroyAddrInst s)" "inst_ok g (DestroyAddrInst s)"
    if "next_slot g = next_slot g1" for g
    using s that by (simp_all add: fresh_inst_def inst_ok_def)
  show ?thesis
  proof (cases "pred_empty (last CB) g1")
    case True
    define g2 where "g2 = prependInst (last CB) (DestroyAddrInst s) g1"
    define g3 where "g3 = snd (createBasicBlock g2)"
    define g4 where "g4 = createCondBranch hv (fst (createBasicBlock g2)) (last CB) g3"
    from nb init pbd True
    have "emitStmtCondition_binding binding buffers CB nb gen =
        Inr (CB, emitBlock (fst (createBasicBlock g2)) g4)"
      by (simp add: emitStmtCondition_binding_def Let_def split_beta defs g2_def g3_def g4_def)
    with step have r: "CB' = CB" "gen' = emitBlock (fst (createBasicBlock g2)) g4"
      by simp_all
    have e2: "extends base g2"
      unfolding g2_def by (rule ext_prependInst [OF e1 l(1)]) (simp_all add: d prependInst_def)
    have e3: "extends base g3" unfolding g3_def by (rule ext_createBasicBlock [OF e2])
    have e4: "extends base g4"
      unfolding g4_def
      by (rule ext_createCondBranch [OF e3]) (use l ll n in \<open>simp_all add: g2_def g3_def prim_defs\<close>)
    have "extends base (emitBlock (fst (createBasicBlock g2)) g4)"
      by (rule ext_emitBlock [OF e4]) (use n in \<open>simp_all add: g2_def g3_def g4_def prim_defs\<close>)
    moreover have "next_block (emitBlock (fst (createBasicBlock g2)) g4) = Suc (next_block gen)"
      "next_slot (emitBlock (fst (createBasicBlock g2)) g4) = next_slot gen"
      by (simp_all add: g2_def g3_def g4_def prim_defs f1)
    ultimately show ?thesis
      using r cb by (auto intro: less_SucI)
  next
    case False
    define F where "F = fst (createBasicBlock g1)"
    define g2 where "g2 = appendInst F (BranchInst (last CB) []) (snd (createBasicBlock g1))"
    define g3 where "g3 = prependInst F (DestroyAddrInst s) g2"
    define g4 where "g4 = snd (createBasicBlock g3)"
    define g5 where "g5 = createCondBranch hv (fst (createBasicBlock g3)) (last (CB @ [F])) g4"
    note gdefs = F_def g2_def g3_def g4_def g5_def
    from nb init pbd False
    have "emitStmtCondition_binding binding buffers CB nb gen =
        Inr (CB @ [F], emitBlock (fst (createBasicBlock g3)) g5)"
      by (simp add: emitStmtCondition_binding_def Let_def split_beta defs gdefs)
    with step have r: "CB' = CB @ [F]" "gen' = emitBlock (fst (createBasicBlock g3)) g5"
      by simp_all
    have F: "F = next_block g1" by (simp add: F_def createBasicBlock_eq)
    have e1': "extends base (snd (createBasicBlock g1))"
      using e1 by (rule ext_createBasicBlock)
    have e2: "extends base g2"
      unfolding g2_def
      by (rule ext_appendInst [OF e1'])
        (use n l ll in \<open>simp_all add: F fresh_inst_def inst_ok_def prim_defs\<close>)
    have e3: "extends base g3"
      unfolding g3_def
      by (rule ext_prependInst [OF e2]) (use n in \<open>simp_all add: F d g2_def prim_defs\<close>)
    have e4: "extends base g4" unfolding g4_def by (rule ext_createBasicBlock [OF e3])
    have e5: "extends base g5"
      unfolding g5_def
      by (rule ext_createCondBranch [OF e4])
        (use n in \<open>simp_all add: F g2_def g3_def g4_def prim_defs\<close>)
    have "extends base (emitBlock (fst (createBasicBlock g3)) g5)"
      by (rule ext_emitBlock [OF e5])
        (use n in \<open>simp_all add: F g2_def g3_def g4_def g5_def prim_defs\<close>)
    moreover have "next_block (emitBlock (fst (createBasicBlock g3)) g5) = Suc (Suc (next_block gen))"
      "next_slot (emitBlock (fst (createBasicBlock g3)) g5) = next_slot gen"
      by (simp_all add: F g2_def g3_def g4_def g5_def prim_defs f1)
    ultimately show ?thesis
      using r cb n by (auto simp: F f1 intro: less_SucI)
  qed
qed

lemma ext_emitStmtCondition_loop:
  assumes "emitStmtCondition_loop C buffers CB nb gen = Inr (CB', gen')"
    and "extends base gen"
    and "CB \<noteq> []" "\<forall>b \<in> set CB. next_block base \<le> b \<and> b < next_block gen"
    and "\<forall>b \<in> set buffers. next_slot base \<le> OptAddr b \<and> OptAddr b < next_slot gen"
  shows "extends base gen' \<and> (\<forall>b \<in> set CB'. next_block base \<le> b \<and> b < next_block gen')"
  using assms
proof (induction C buffers CB nb gen arbitrary: CB' gen'
    rule: emitStmtCondition_loop.induct)
  case (1 buffers CleanupBlocks nextBuffer gen)
  then show ?case by simp
next
  case (2 expr C buffers CleanupBlocks nextBuffer gen)
  let ?g = "emitStmtCondition_expr expr CleanupBlocks gen"
  from "2.prems" have "extends base ?g"
    by (intro ext_emitStmtCondition_expr) simp_all
  moreover have "next_block ?g = Suc (next_block gen)" "next_slot ?g = next_slot gen"
    by (simp_all add: emitStmtCondition_expr_def prim_defs Let_def split_beta)
  ultimately show ?case
    using "2.prems" by (intro "2.IH") (auto intro: less_SucI)
next
  case (3 binding C buffers CleanupBlocks nextBuffer gen)
  from "3.prems"(1) obtain CB1 g1 where
    s: "emitStmtCondition_binding binding buffers CleanupBlocks nextBuffer gen = Inr (CB1, g1)"
    and l: "emitStmtCondition_loop C buffers CB1 (nextBuffer + 1) g1 = Inr (CB', gen')"
    by (auto split: sum.splits)
  from ext_emitStmtCondition_binding [OF s "3.prems"(2-5)] "3.prems"(5)
  show ?case
    by (intro "3.IH" [OF s refl l]) simp_all
qed

lemma emitStmtCondition_blocks:
  assumes c: "emitStmtCondition C buffers gen = Inr (CBs, gen')" and w: "wf_layout gen"
  shows "CBs \<noteq> [] \<and> distinct CBs \<and> last CBs = next_block gen \<and>
    (\<forall>b \<in> set CBs. next_block gen \<le> b \<and> b < next_block gen') \<and>
    (\<exists>ip. InsertionPoint gen' = Some ip \<and> ip \<notin> set CBs)"
proof -
  let ?g = "snd (createBasicBlock gen)"
  from c obtain CB where ip: "hasValidInsertionPoint gen"
    and l: "emitStmtCondition_loop C buffers [next_block gen] 0 ?g = Inr (CB, gen')"
    and r: "CBs = rev CB"
    by (auto simp: emitStmtCondition_def Let_def split_beta createBasicBlock_eq
        split: if_splits sum.splits)
  from ip w obtain b where "InsertionPoint gen = Some b" "b \<in> set (layout gen)"
    "b < next_block gen"
    by (auto simp: wf_layout_def hasValidInsertionPoint_def split: option.splits)
  then have "condInv (next_block gen) buffers [next_block gen] 0 ?g"
    by (simp add: condInv_def prim_defs)
  from emitStmtCondition_loop_inv [OF this l]
  have inv: "condInv (next_block gen) buffers CB (length (bindings C)) gen'" by simp
  then have ne: "CB \<noteq> []" and hd: "hd CB = next_block gen" and s: "sorted_wrt (<) CB"
    and lt: "\<forall>b \<in> set CB. b < next_block gen'"
    and i: "\<exists>ip. InsertionPoint gen' = Some ip \<and> ip \<notin> set CB"
    by (auto simp: condInv_def)
  from s have d: "distinct CB" and so: "sorted CB" by (simp_all add: strict_sorted_iff)
  from ne so hd have "\<forall>b \<in> set CB. next_block gen \<le> b"
    by (cases CB) auto
  with ne hd d lt i r show ?thesis
    by (simp add: last_rev)
qed

lemma ext_emitStmtCondition:
  assumes c: "emitStmtCondition C buffers gen = Inr (CBs, gen')" and e: "extends base gen"
    and bf: "\<forall>b \<in> set buffers. next_slot base \<le> OptAddr b \<and> OptAddr b < next_slot gen"
  shows "extends base gen'"
proof -
  let ?g = "snd (createBasicBlock gen)"
  from c obtain CB where
    l: "emitStmtCondition_loop C buffers [next_block gen] 0 ?g = Inr (CB, gen')"
    by (auto simp: emitStmtCondition_def Let_def split_beta createBasicBlock_eq
        split: if_splits sum.splits)
  have "extends base ?g" using e by (rule ext_createBasicBlock)
  from ext_emitStmtCondition_loop [OF l this] bf ext_next_block [OF e] show ?thesis
    by (simp add: createBasicBlock_eq)
qed

lemma destBlocks_ReturnDest: "getBlock (ReturnDest g) \<in> set (destBlocks g)"
  by (simp add: destBlocks_def)

lemma destBlocks_FailDest: "FailDest g = Some d \<Longrightarrow> getBlock d \<in> set (destBlocks g)"
  by (simp add: destBlocks_def)

lemma destBlocks_stack:
  "elt \<in> set (BreakContinueDestStack g) \<Longrightarrow>
     getBlock (fst (snd elt)) \<in> set (destBlocks g) \<and> getBlock (snd (snd elt)) \<in> set (destBlocks g)"
  by (auto simp: destBlocks_def)

lemma ext_visitReturnStmt:
  assumes r: "visitReturnStmt result gen = Inr gen'" and e: "extends base gen"
  shows "extends base gen'"
proof (cases result)
  case None
  with r e show ?thesis
    by (auto simp: visitReturnStmt_def intro: ext_emitBranchAndCleanups destBlocks_ReturnDest)
next
  case (Some ret)
  show ?thesis
  proof (cases "IndirectReturnAddress gen")
    case None
    let ?g = "popScope (fst (pushScope gen)) (snd (emitRValue ret (snd (pushScope gen))))"
    have "extends base ?g" by (intro ext_intros e)
    moreover from r Some None obtain args where
      "emitBranchAndCleanups (ReturnDest ?g) args ?g = Inr gen'"
      by (simp add: visitReturnStmt_def emitReturnExpr_def Let_def split_beta)
    ultimately show ?thesis
      by (rule ext_emitBranchAndCleanups [OF _ destBlocks_ReturnDest])
  next
    case (Some addr)
    let ?g = "popScope (fst (pushScope gen)) (emitExprInto ret addr (snd (pushScope gen)))"
    have "extends base ?g" by (intro ext_intros e)
    moreover from r \<open>result = Some ret\<close> Some have
      "emitBranchAndCleanups (ReturnDest ?g) [] ?g = Inr gen'"
      by (simp add: visitReturnStmt_def emitReturnExpr_def Let_def split_beta)
    ultimately show ?thesis
      by (rule ext_emitBranchAndCleanups [OF _ destBlocks_ReturnDest])
  qed
qed

lemma ext_visitBreakStmt:
  assumes r: "visitBreakStmt target gen = Inr gen'" and e: "extends base gen"
  shows "extends base gen'"
proof -
  from r obtain t elt where "find (\<lambda>elt. t = fst elt) (BreakContinueDestStack gen) = Some elt"
    and "emitBranchAndCleanups (fst (snd elt)) [] gen = Inr gen'"
    by (auto simp: visitBreakStmt_def emitBreakOutOf_def split: option.splits)
  then have "elt \<in> set (BreakContinueDestStack gen)"
    and "emitBranchAndCleanups (fst (snd elt)) [] gen = Inr gen'"
    by (auto simp: find_Some_iff)
  with e show ?thesis
    by (auto intro: ext_emitBranchAndCleanups dest: destBlocks_stack)
qed

lemma ext_visitContinueStmt:
  assumes r: "visitContinueStmt target gen = Inr gen'" and e: "extends base gen"
  shows "extends base gen'"
proof -
  from r obtain t elt where "find (\<lambda>elt. t = fst elt) (BreakContinueDestStack gen) = Some elt"
    and "emitBranchAndCleanups (snd (snd elt)) [] gen = Inr gen'"
    by (auto simp: visitContinueStmt_def split: option.splits)
  then have "elt \<in> set (BreakContinueDestStack gen)"
    and "emitBranchAndCleanups (snd (snd elt)) [] gen = Inr gen'"
    by (auto simp: find_Some_iff)
  with e show ?thesis
    by (auto intro: ext_emitBranchAndCleanups dest: destBlocks_stack)
qed

lemma ext_visitFailStmt:
  assumes r: "visitFailStmt gen = Inr gen'" and e: "extends base gen"
  shows "extends base gen'"
proof -
  from r obtain dest v where d: "FailDest gen = Some dest"
    and b: "emitBranchAndCleanups dest [] (insertInst (StrongReleaseInst v) gen) = Inr gen'"
    by (auto simp: visitFailStmt_def Let_def split: option.splits if_splits)
  have "extends base (insertInst (StrongReleaseInst v) gen)"
    using e by (rule ext_insertInst) simp_all
  then show ?thesis
    by (rule ext_emitBranchAndCleanups [OF _ _ b]) (simp add: destBlocks_def d)
qed

lemma ext_emitCleanupBlocks:
  "extends base gen \<Longrightarrow> \<forall>b \<in> set CBs. next_block base \<le> b \<and> b < next_block gen \<Longrightarrow>
     extends base (emitCleanupBlocks CBs gen)"
  unfolding emitCleanupBlocks_def
proof (induction CBs arbitrary: gen)
  case Nil
  then show ?case by simp
next
  case (Cons bb CBs)
  have "extends base (emitBlock bb (clearInsertionPoint gen))"
    using Cons.prems by (intro ext_emitBlock ext_clearInsertionPoint) (simp_all add: prim_defs)
  moreover have "next_block (emitBlock bb (clearInsertionPoint gen)) = next_block gen"
    by (simp add: prim_defs)
  ultimately have "extends base (fold (\<lambda>BB gen. emitBlock BB (clearInsertionPoint gen)) CBs
      (emitBlock bb (clearInsertionPoint gen)))"
    using Cons.prems by (intro Cons.IH) simp_all
  then show ?case by simp
qed

lemma emitCleanupBlocks_InsertionPoint:
  "InsertionPoint (emitCleanupBlocks CBs gen) =
     (if CBs = [] then InsertionPoint gen else Some (last CBs))"
  unfolding emitCleanupBlocks_def
  by (induction CBs arbitrary: gen) (auto simp: prim_defs)

lemma ext_emitOrDeleteBlock:
  assumes "extends base gen" "next_block base \<le> BB" "BB < next_block gen"
    "InsertionPoint gen \<noteq> Some BB"
  shows "extends base (emitOrDeleteBlock BB gen)"
  using assms
  by (simp add: emitOrDeleteBlock_def ext_eraseFromParent ext_emitBlockAt)

lemma emitOrDeleteBlock_InsertionPoint:
  "InsertionPoint (emitOrDeleteBlock BB gen) = None \<or>
   InsertionPoint (emitOrDeleteBlock BB gen) = InsertionPoint gen \<or>
   InsertionPoint (emitOrDeleteBlock BB gen) = Some BB"
  by (simp add: emitOrDeleteBlock_def prim_defs)

lemma ext_emitConditionValue:
  assumes r: "emitConditionValue V False False [] gen = Inr (Cond, gen')" and e: "extends base gen"
  shows "extends base gen' \<and> Cond = Condition (Some (Suc (next_block gen))) None (Some (next_block gen)) \<and>
    next_block gen' = Suc (Suc (next_block gen)) \<and> InsertionPoint gen' = None \<and>
    next_slot gen' = next_slot gen"
proof -
  let ?g1 = "snd (createBasicBlock gen)"
  let ?g2 = "snd (createBasicBlock ?g1)"
  from r have c: "Cond = Condition (Some (Suc (next_block gen))) None (Some (next_block gen))"
    and g: "gen' = createCondBranch V (Suc (next_block gen)) (next_block gen) ?g2"
    by (simp_all add: emitConditionValue_def Let_def split_beta createBasicBlock_eq
        split: if_splits)
  have "extends base ?g2" by (intro ext_intros e)
  then have "extends base (createCondBranch V (Suc (next_block gen)) (next_block gen) ?g2)"
    by (rule ext_createCondBranch)
      (use ext_next_block [OF e] in \<open>simp_all add: createBasicBlock_eq\<close>)
  with c g show ?thesis
    by (simp add: prim_defs)
qed

lemma ext_emitCondition:
  assumes r: "emitCondition E False False [] gen = Inr (Cond, gen')" and e: "extends base gen"
  shows "extends base gen' \<and> Cond = Condition (Some (Suc (next_block gen))) None (Some (next_block gen)) \<and>
    next_block gen' = Suc (Suc (next_block gen)) \<and> InsertionPoint gen' = None \<and>
    next_slot gen' = next_slot gen"
proof -
  let ?g = "popScope (fst (pushScope gen)) (snd (emitRValue E (snd (pushScope gen))))"
  from r obtain V where "emitConditionValue V False False [] ?g = Inr (Cond, gen')"
    by (auto simp: emitCondition_def Let_def split_beta split: if_splits)
  moreover have "extends base ?g" by (intro ext_intros e)
  ultimately have "extends base gen' \<and>
    Cond = Condition (Some (Suc (next_block ?g))) None (Some (next_block ?g)) \<and>
    next_block gen' = Suc (Suc (next_block ?g)) \<and> InsertionPoint gen' = None \<and>
    next_slot gen' = next_slot ?g"
    by (rule ext_emitConditionValue)
  then show ?thesis by (simp add: prim_defs)
qed

lemma ext_branch_if_valid:
  "extends base gen \<Longrightarrow> t \<in> set (destBlocks base) \<or> next_block base \<le> t \<Longrightarrow> t < next_block gen \<Longrightarrow>
     extends base (if hasValidInsertionPoint gen then createBranch t args gen else gen)"
  by (simp add: ext_createBranch)

lemma ext_enterTrue:
  assumes "enterTrue Cond gen = Inr gen'" "extends base gen"
    and "\<forall>t. getTrueBB Cond = Some t \<longrightarrow> next_block base \<le> t \<and> t < next_block gen"
  shows "extends base gen'"
  using assms by (auto simp: enterTrue_def ext_emitBlock split: option.splits)

lemma enterTrue_fields:
  assumes "enterTrue Cond gen = Inr gen'"
  shows "next_block gen' = next_block gen" "next_slot gen' = next_slot gen"
    "InsertionPoint gen' = (if getContBB Cond = None then InsertionPoint gen else getTrueBB Cond)"
    "blocks gen' = blocks gen"
  using assms by (auto simp: enterTrue_def prim_defs split: option.splits)

lemma ext_exitTrue:
  assumes "extends base gen"
    and "\<forall>c. getContBB Cond = Some c \<longrightarrow> next_block base \<le> c \<and> c < next_block gen"
  shows "extends base (exitTrue Cond gen)"
  using assms by (auto simp: exitTrue_def ext_createBranch split: option.splits)

lemma exitTrue_None: "InsertionPoint gen = None \<Longrightarrow> exitTrue Cond gen = gen"
  by (simp add: exitTrue_def prim_defs split: option.splits)

lemma ext_complete:
  assumes "extends base gen"
    and "\<forall>c. getContBB Cond = Some c \<longrightarrow>
           next_block base \<le> c \<and> c < next_block gen \<and> InsertionPoint gen \<noteq> Some c"
  shows "extends base (complete Cond gen)"
  using assms by (auto simp: complete_def ext_eraseFromParent ext_emitBlock split: option.splits)

lemma complete_InsertionPoint:
  "InsertionPoint (complete Cond gen) = InsertionPoint gen \<or>
   (\<exists>c. getContBB Cond = Some c \<and> InsertionPoint (complete Cond gen) = Some c)"
  by (auto simp: complete_def prim_defs split: option.splits)

lemma ext_fold_visitDecl: "extends base gen \<Longrightarrow> extends base (fold visitDecl decls gen)"
  by (induction decls arbitrary: gen) (simp_all add: ext_collab)

lemma ext_visitIfStmt_cond:
  assumes r: "visitIfStmt_cond cond gen = Inr (d0, d1, CBs, g1)" and e: "extends base gen"
  shows "extends base g1 \<and> CBs \<noteq> [] \<and> distinct CBs \<and>
    (\<forall>b \<in> set CBs. next_block gen \<le> b \<and> b < next_block g1) \<and>
    (\<exists>ip. InsertionPoint g1 = Some ip \<and> ip \<notin> set CBs)"
proof -
  let ?g0 = "snd (pushScope gen)"
  from r obtain bufs gb gc where b: "emitConditionalBindingBuffers cond ?g0 = Inr (bufs, gb)"
    and c: "emitStmtCondition cond bufs gb = Inr (CBs, gc)"
    and g1: "g1 = emitConditionalPatternBindings bufs (snd (pushScope gc))"
    by (auto simp: visitIfStmt_cond_def Let_def split_beta split: sum.splits)
  have e0: "extends base ?g0" using e by (rule ext_pushScope)
  have eb: "extends base gb" by (rule ext_emitConditionalBindingBuffers [OF b e0])
  from emitConditionalBindingBuffers_slots [OF b] ext_next_slot [OF e]
  have bf: "\<forall>b \<in> set bufs. next_slot base \<le> OptAddr b \<and> OptAddr b < next_slot gb"
    by (auto simp: pushScope_def)
  have ec: "extends base gc" by (rule ext_emitStmtCondition [OF c eb bf])
  have "extends base g1"
    unfolding g1 by (intro ext_intros ext_emitConditionalPatternBindings ec)
  moreover from emitConditionalBindingBuffers_fields [OF b]
  have "next_block gb = next_block gen" by (simp add: pushScope_def)
  moreover note emitStmtCondition_blocks [OF c ext_wf_layout [OF eb]]
  ultimately show ?thesis
    by (simp add: g1 pushScope_def)
qed

lemma ext_visitIfStmt_noElse:
  assumes e: "extends base gen" and ne: "CBs \<noteq> []"
    and b: "\<forall>b \<in> set CBs. next_block base \<le> b \<and> b < next_block gen"
  shows "extends base (visitIfStmt_noElse CBs gen)"
proof -
  from ne b have l: "next_block base \<le> last CBs" "last CBs < next_block gen" by simp_all
  note n = ext_next_block [OF e]
  show ?thesis
  proof (cases "hasValidInsertionPoint gen")
    case False
    with e b show ?thesis
      by (simp add: visitIfStmt_noElse_def ext_emitCleanupBlocks)
  next
    case True
    show ?thesis
    proof (cases "block_empty (last CBs) gen")
      case be: True
      have "extends base (createBranch (last CBs) [] gen)"
        using e l by (intro ext_createBranch) simp_all
      then have "extends base (emitCleanupBlocks CBs (createBranch (last CBs) [] gen))"
        by (rule ext_emitCleanupBlocks) (use b in simp)
      with True be show ?thesis
        by (simp add: visitIfStmt_noElse_def)
    next
      case be: False
      let ?N = "next_block gen"
      let ?g1 = "appendInst (last CBs) (BranchInst ?N []) (snd (createBasicBlock gen))"
      have "extends base ?g1"
        by (intro ext_appendInst ext_createBasicBlock e)
          (use l n in \<open>simp_all add: fresh_inst_def inst_ok_def appendInst_def\<close>)
      then have "extends base (createBranch ?N [] ?g1)"
        by (rule ext_createBranch) (use n in \<open>simp_all add: appendInst_def\<close>)
      then have "extends base (emitCleanupBlocks (CBs @ [?N]) (createBranch ?N [] ?g1))"
        by (rule ext_emitCleanupBlocks) (use b n in \<open>auto simp: appendInst_def intro: less_SucI\<close>)
      with True be show ?thesis
        by (simp add: visitIfStmt_noElse_def Let_def split_beta)
    qed
  qed
qed

lemma ext_visitIfStmt_elseBegin:
  assumes e: "extends base gen" and ne: "CBs \<noteq> []"
    and b: "\<forall>b \<in> set CBs. next_block base \<le> b \<and> b < next_block gen"
  shows "extends base (snd (visitIfStmt_elseBegin CBs gen))"
proof -
  let ?g1 = "snd (createBasicBlock gen)"
  let ?g2 = "if hasValidInsertionPoint ?g1 then createBranch (next_block gen) [] ?g1 else ?g1"
  have "extends base ?g2"
    by (intro ext_branch_if_valid ext_createBasicBlock e)
      (use ext_next_block [OF e] in simp_all)
  then have "extends base (emitCleanupBlocks CBs ?g2)"
    by (rule ext_emitCleanupBlocks) (use b in \<open>auto intro: less_SucI\<close>)
  then show ?thesis
    by (simp add: visitIfStmt_elseBegin_def Let_def split_beta split: if_splits)
qed

lemma visitIfStmt_elseBegin_fields:
  "fst (visitIfStmt_elseBegin CBs gen) = next_block gen"
  "next_block (snd (visitIfStmt_elseBegin CBs gen)) = Suc (next_block gen)"
  "CBs \<noteq> [] \<Longrightarrow> InsertionPoint (snd (visitIfStmt_elseBegin CBs gen)) = Some (last CBs)"
  by (simp_all add: visitIfStmt_elseBegin_def Let_def split_beta
      emitCleanupBlocks_InsertionPoint)

lemma ext_visitIfStmt_elseEnd:
  assumes e: "extends base gen" and b: "next_block base \<le> ContBB" "ContBB < next_block gen"
  shows "extends base (visitIfStmt_elseEnd ContBB gen)"
proof -
  let ?g = "if hasValidInsertionPoint gen then createBranch ContBB [] gen else gen"
  have 1: "extends base ?g" using e b by (intro ext_branch_if_valid) simp_all
  have 2: "InsertionPoint ?g = None" by (simp add: hasValidInsertionPoint_def)
  have "extends base (eraseFromParent ContBB ?g)"
    using 1 b(1) by (rule ext_eraseFromParent) (simp add: 2)
  moreover have "extends base (emitBlock ContBB ?g)"
    using 1 b(1) by (rule ext_emitBlock) (use b in simp)
  ultimately show ?thesis
    by (simp add: visitIfStmt_elseEnd_def Let_def)
qed

lemma ext_visitWhileStmt_head:
  assumes r: "visitWhileStmt_head S cond gen = Inr (d0, d1, LoopBB, CBs, g1)"
    and e: "extends base gen"
  shows "extends base g1 \<and> CBs \<noteq> [] \<and> LoopBB = next_block gen \<and>
    (\<forall>b \<in> set CBs. next_block gen \<le> b \<and> b < next_block g1) \<and> next_block gen < next_block g1"
proof -
  let ?g0 = "snd (pushScope gen)"
  from r obtain bufs gb gc where b: "emitConditionalBindingBuffers cond ?g0 = Inr (bufs, gb)"
    and c: "emitStmtCondition cond bufs
        (emitBlockAt (next_block gb) (snd (createBasicBlock gb))) = Inr (CBs, gc)"
    and l: "LoopBB = next_block gb"
    and g1: "g1 = emitConditionalPatternBindings bufs (snd (pushScope
        (push_back (S, JumpDest (hd CBs) (getCleanupsDepth gc),
                       JumpDest (next_block gb) (getCleanupsDepth gc)) gc)))"
    by (auto simp: visitWhileStmt_head_def Let_def split_beta split: sum.splits)
  let ?gl = "emitBlockAt (next_block gb) (snd (createBasicBlock gb))"
  have e0: "extends base ?g0" using e by (rule ext_pushScope)
  have eb: "extends base gb" by (rule ext_emitConditionalBindingBuffers [OF b e0])
  from emitConditionalBindingBuffers_fields [OF b]
  have nb: "next_block gb = next_block gen" by simp
  note n = ext_next_block [OF e]
  have el: "extends base ?gl"
    by (intro ext_emitBlockAt ext_createBasicBlock eb) (use n nb in simp_all)
  from emitConditionalBindingBuffers_slots [OF b] ext_next_slot [OF e]
  have bf: "\<forall>b \<in> set bufs. next_slot base \<le> OptAddr b \<and> OptAddr b < next_slot ?gl"
    by auto
  have ec: "extends base gc" by (rule ext_emitStmtCondition [OF c el bf])
  note cb = emitStmtCondition_blocks [OF c ext_wf_layout [OF el]]
  from cb have hd: "hd CBs \<in> set CBs" by simp
  with cb have h: "Suc (next_block gen) \<le> hd CBs" "hd CBs < next_block gc"
    by (auto simp: nb)
  have "extends base g1"
    unfolding g1
    by (intro ext_emitConditionalPatternBindings ext_pushScope ext_push_back ec)
      (use h n nb in simp_all)
  moreover from h have "next_block gen < next_block gc" by simp
  ultimately show ?thesis
    using cb l nb by (auto simp: g1)
qed

lemma ext_visitWhileStmt_tail:
  assumes e: "extends base gen" and ne: "CBs \<noteq> []"
    and b: "\<forall>b \<in> set CBs. next_block base \<le> b \<and> b < next_block gen"
    and l: "next_block base \<le> LoopBB" "LoopBB < next_block gen"
  shows "extends base (visitWhileStmt_tail d0 d1 LoopBB CBs gen)"
  unfolding visitWhileStmt_tail_def Let_def
  by (intro ext_popScope ext_emitCleanupBlocks ext_pop_back ext_branch_if_valid e)
    (use b l in simp_all)

lemma ext_visitDoWhileStmt_head:
  assumes r: "visitDoWhileStmt_head S gen = (LoopBB, EndBB, CondBB, g1)" and e: "extends base gen"
  shows "extends base g1 \<and> LoopBB = next_block gen \<and> EndBB = Suc (next_block gen) \<and>
    CondBB = Suc (Suc (next_block gen)) \<and> next_block g1 = Suc (Suc (Suc (next_block gen))) \<and>
    InsertionPoint g1 = Some LoopBB"
proof -
  let ?g1 = "emitBlockAt (next_block gen) (snd (createBasicBlock gen))"
  let ?g3 = "snd (createBasicBlock (snd (createBasicBlock ?g1)))"
  from r have g1: "g1 = push_back (S, JumpDest (Suc (next_block gen)) (getCleanupsDepth ?g3),
      JumpDest (Suc (Suc (next_block gen))) (getCleanupsDepth ?g3)) ?g3"
    and l: "LoopBB = next_block gen" "EndBB = Suc (next_block gen)"
      "CondBB = Suc (Suc (next_block gen))"
    by (auto simp: visitDoWhileStmt_head_def Let_def split_beta)
  note n = ext_next_block [OF e]
  have "extends base g1"
    unfolding g1
    by (intro ext_push_back ext_createBasicBlock ext_emitBlockAt e) (use n in simp_all)
  with l show ?thesis by (simp add: g1)
qed

lemma ext_visitDoWhileStmt_cond:
  assumes r: "visitDoWhileStmt_cond cond LoopBB gen = Inr gen'" and e: "extends base gen"
    and l: "next_block base \<le> LoopBB" "LoopBB < next_block gen"
  shows "extends base gen' \<and>
    (InsertionPoint gen' = None \<or> InsertionPoint gen' = Some (next_block gen))"
proof -
  from r obtain Cond gc gt where c: "emitCondition cond False False [] gen = Inr (Cond, gc)"
    and t: "enterTrue Cond gc = Inr gt"
    and g: "gen' = complete Cond (exitTrue Cond
        (if hasValidInsertionPoint gt then createBranch LoopBB [] gt else gt))"
    by (auto simp: visitDoWhileStmt_cond_def Let_def split: sum.splits)
  note n = ext_next_block [OF e]
  from ext_emitCondition [OF c e] have ec: "extends base gc"
    and C: "Cond = Condition (Some (Suc (next_block gen))) None (Some (next_block gen))"
    and nc: "next_block gc = Suc (Suc (next_block gen))"
    by simp_all
  have et: "extends base gt"
    by (rule ext_enterTrue [OF t ec]) (use n in \<open>simp add: C nc\<close>)
  note ft = enterTrue_fields [OF t]
  let ?gb = "if hasValidInsertionPoint gt then createBranch LoopBB [] gt else gt"
  have eb: "extends base ?gb"
    by (intro ext_branch_if_valid et) (use l in \<open>simp_all add: ft nc\<close>)
  have ib: "InsertionPoint ?gb = None"
    by (simp add: hasValidInsertionPoint_def)
  then have x: "exitTrue Cond ?gb = ?gb" by (rule exitTrue_None)
  have "extends base (complete Cond ?gb)"
    by (rule ext_complete [OF eb]) (use n in \<open>simp add: C ib ft nc split: if_splits\<close>)
  moreover from complete_InsertionPoint [of Cond ?gb] ib
  have "InsertionPoint (complete Cond ?gb) = None \<or>
      InsertionPoint (complete Cond ?gb) = Some (next_block gen)"
    by (auto simp: C)
  ultimately show ?thesis
    unfolding g x by simp
qed

lemma ext_visitDoWhileStmt_tail:
  assumes r: "visitDoWhileStmt_tail cond LoopBB EndBB CondBB gen = Inr gen'"
    and e: "extends base gen"
    and l: "next_block base \<le> LoopBB" "LoopBB < next_block gen"
    and en: "next_block base \<le> EndBB" "EndBB < next_block gen" "InsertionPoint gen \<noteq> Some EndBB"
    and co: "next_block base \<le> CondBB" "CondBB < next_block gen"
      "InsertionPoint gen \<noteq> Some CondBB" "CondBB \<noteq> EndBB"
  shows "extends base gen'"
proof -
  let ?g1 = "emitOrDeleteBlock CondBB gen"
  have e1: "extends base ?g1" using e co(1-3) by (rule ext_emitOrDeleteBlock)
  from emitOrDeleteBlock_InsertionPoint [of CondBB gen] en(3) co(4)
  have i1: "InsertionPoint ?g1 \<noteq> Some EndBB" by auto
  obtain g2 where g2: "extends base g2" "InsertionPoint g2 \<noteq> Some EndBB"
    "next_block ?g1 \<le> next_block g2"
    and g: "gen' = pop_back (emitOrDeleteBlock EndBB g2)"
  proof (cases "hasValidInsertionPoint ?g1")
    case False
    with r have "gen' = pop_back (emitOrDeleteBlock EndBB ?g1)"
      by (simp add: visitDoWhileStmt_tail_def Let_def)
    with e1 i1 show ?thesis by (intro that [of ?g1]) simp_all
  next
    case True
    with r obtain g2 where c: "visitDoWhileStmt_cond cond LoopBB ?g1 = Inr g2"
      and g: "gen' = pop_back (emitOrDeleteBlock EndBB g2)"
      by (auto simp: visitDoWhileStmt_tail_def Let_def split: sum.splits)
    from ext_visitDoWhileStmt_cond [OF c e1] l
    have "extends base g2" "InsertionPoint g2 = None \<or> InsertionPoint g2 = Some (next_block gen)"
      by simp_all
    moreover from visitDoWhileStmt_cond_preserves [OF c]
    have "next_block ?g1 \<le> next_block g2" by (simp add: pres_defs)
    ultimately show ?thesis
      using en(2) g by (intro that [of g2]) auto
  qed
  have "extends base (emitOrDeleteBlock EndBB g2)"
    using g2(1) en(1) by (rule ext_emitOrDeleteBlock) (use g2 en in simp_all)
  then show ?thesis
    unfolding g by (rule ext_pop_back)
qed

lemma ext_visitForStmt_init:
  assumes "visitForStmt_init decls initializer gen = (ForScope, g0)" "extends base gen"
  shows "extends base g0"
proof -
  from assms(1) have "g0 = (case initializer of None \<Rightarrow> fold visitDecl decls (snd (pushScope gen))
      | Some I \<Rightarrow> emitIgnoredExpr I (fold visitDecl decls (snd (pushScope gen))))"
    by (auto simp: visitForStmt_init_def Let_def split_beta)
  with assms(2) show ?thesis
    by (auto intro!: ext_collab ext_fold_visitDecl ext_pushScope split: option.splits)
qed

lemma ext_visitForStmt_head:
  assumes r: "visitForStmt_head S cond gen = Inr (LoopBB, IncBB, EndBB, Cond, g1)"
    and e: "extends base gen"
  shows "extends base g1 \<and> LoopBB = next_block gen \<and> IncBB = Suc (next_block gen) \<and>
    EndBB = Suc (Suc (next_block gen)) \<and> Suc (Suc (Suc (next_block gen))) \<le> next_block g1 \<and>
    (\<exists>t. getTrueBB Cond = Some t \<and> t < next_block g1 \<and>
       (t = next_block gen \<or> Suc (Suc (Suc (next_block gen))) \<le> t) \<and>
       (getContBB Cond = None \<longrightarrow> InsertionPoint g1 = Some t)) \<and>
    (\<forall>c. getContBB Cond = Some c \<longrightarrow> Suc (Suc (Suc (next_block gen))) \<le> c \<and> c < next_block g1)"
proof -
  let ?g1 = "emitBlockAt (next_block gen) (snd (createBasicBlock gen))"
  let ?g3 = "snd (createBasicBlock (snd (createBasicBlock ?g1)))"
  let ?g4 = "push_back (S, JumpDest (Suc (Suc (next_block gen))) (getCleanupsDepth ?g3),
      JumpDest (Suc (next_block gen)) (getCleanupsDepth ?g3)) ?g3"
  from r have l: "LoopBB = next_block gen" "IncBB = Suc (next_block gen)"
      "EndBB = Suc (Suc (next_block gen))"
    by (auto simp: visitForStmt_head_def Let_def split_beta split: sum.splits)
  note n = ext_next_block [OF e]
  have e4: "extends base ?g4"
    by (intro ext_push_back ext_createBasicBlock ext_emitBlockAt e) (use n in simp_all)
  show ?thesis
  proof (cases cond)
    case None
    have "visitForStmt_head S None gen =
        Inr (next_block gen, Suc (next_block gen), Suc (Suc (next_block gen)),
             Condition (Some (next_block gen)) None None, ?g4)"
      by (simp add: visitForStmt_head_def Let_def split_beta)
    with r None have "Cond = Condition (Some (next_block gen)) None None" "g1 = ?g4"
      by auto
    with e4 l show ?thesis by simp
  next
    case (Some C)
    with r have "emitCondition C False False [] ?g4 = Inr (Cond, g1)"
      by (auto simp: visitForStmt_head_def Let_def split_beta split: sum.splits)
    from ext_emitCondition [OF this e4] l show ?thesis by simp
  qed
qed

lemma ext_visitForStmt_afterBody:
  assumes e: "extends base gen"
    and l: "next_block base \<le> LoopBB" "LoopBB < next_block gen"
    and i: "next_block base \<le> IncBB" "IncBB < next_block gen" "InsertionPoint gen \<noteq> Some IncBB"
  shows "extends base (visitForStmt_afterBody increment LoopBB IncBB Cond gen) \<and>
    InsertionPoint (visitForStmt_afterBody increment LoopBB IncBB Cond gen) = None \<and>
    next_block (visitForStmt_afterBody increment LoopBB IncBB Cond gen) = next_block gen"
proof -
  let ?g1 = "emitOrDeleteBlock IncBB gen"
  define g2 where "g2 = (case increment of
      Some I \<Rightarrow>
        if hasValidInsertionPoint ?g1
        then popScope (fst (pushScope ?g1)) (emitIgnoredExpr I (snd (pushScope ?g1)))
        else ?g1
    | None \<Rightarrow> ?g1)"
  let ?g3 = "if hasValidInsertionPoint g2 then createBranch LoopBB [] g2 else g2"
  have e1: "extends base ?g1" using e i by (rule ext_emitOrDeleteBlock)
  have e2: "extends base g2"
    unfolding g2_def by (auto intro!: ext_intros e1 split: option.splits)
  have n2: "next_block g2 = next_block gen"
    unfolding g2_def by (simp add: collab_defs split: option.splits)
  have e3: "extends base ?g3"
    by (intro ext_branch_if_valid e2) (use l n2 in simp_all)
  have i3: "InsertionPoint ?g3 = None" by (simp add: hasValidInsertionPoint_def)
  have "visitForStmt_afterBody increment LoopBB IncBB Cond gen = exitTrue Cond ?g3"
    by (cases increment) (simp_all add: visitForStmt_afterBody_def Let_def split_beta g2_def)
  also have "\<dots> = ?g3" using i3 by (rule exitTrue_None)
  finally show ?thesis
    using e3 i3 n2 by simp
qed

lemma ext_visitForStmt_end:
  assumes e: "extends base gen" and ip: "InsertionPoint gen = None"
    and en: "next_block base \<le> EndBB" "EndBB < next_block gen"
    and c: "\<forall>c. getContBB Cond = Some c \<longrightarrow> next_block base \<le> c \<and> c < next_block gen \<and> c \<noteq> EndBB"
  shows "extends base (visitForStmt_end EndBB Cond ForScope gen)"
proof -
  have e1: "extends base (complete Cond gen)"
    using e by (rule ext_complete) (use c ip in simp)
  from complete_InsertionPoint [of Cond gen] ip c
  have "InsertionPoint (complete Cond gen) \<noteq> Some EndBB" by auto
  with e1 en have "extends base (emitOrDeleteBlock EndBB (complete Cond gen))"
    by (intro ext_emitOrDeleteBlock) simp_all
  then show ?thesis
    unfolding visitForStmt_end_def Let_def by (intro ext_popScope ext_pop_back)
qed

lemma ext_visitForEachStmt_head:
  assumes r: "visitForEachStmt_head S generatorNext gen = Inr (nextBuf, LoopBB, EndBB, Cond, g1)"
    and e: "extends base gen"
  shows "extends base g1 \<and> nextBuf = next_slot gen \<and> LoopBB = next_block gen \<and>
    EndBB = Suc (next_block gen) \<and>
    Cond = Condition (Some (Suc (Suc (Suc (next_block gen))))) None
             (Some (Suc (Suc (next_block gen)))) \<and>
    next_block g1 = Suc (Suc (Suc (Suc (next_block gen)))) \<and>
    next_slot g1 = Suc (next_slot gen)"
proof -
  let ?g1 = "emitBlockAt (next_block gen) (snd (createBasicBlock (snd (emitTemporaryAllocation gen))))"
  let ?g2 = "snd (createBasicBlock ?g1)"
  let ?g3 = "push_back (S, JumpDest (Suc (next_block gen)) (getCleanupsDepth ?g2),
      JumpDest (next_block gen) (getCleanupsDepth ?g2)) ?g2"
  let ?g4 = "snd (emitDoesOptionalHaveValue (next_slot gen)
      (popScope (fst (pushScope ?g3))
        (emitExprInto generatorNext (StackAddress (next_slot gen)) (snd (pushScope ?g3)))))"
  from r have l: "nextBuf = next_slot gen" "LoopBB = next_block gen"
      "EndBB = Suc (next_block gen)"
    and c: "emitConditionValue (OptionalHasValue (next_slot gen)) False False [] ?g4 = Inr (Cond, g1)"
    by (auto simp: visitForEachStmt_head_def Let_def split_beta split: sum.splits)
  note n = ext_next_block [OF e]
  have e4: "extends base ?g4"
    by (intro ext_collab ext_popScope ext_pushScope ext_push_back ext_createBasicBlock
        ext_emitBlockAt ext_emitTemporaryAllocation e) (use n in simp_all)
  from ext_emitConditionValue [OF c e4] l show ?thesis
    by (simp add: collab_defs)
qed

lemma ext_visitForEachStmt_enterBody:
  assumes r: "visitForEachStmt_enterBody pattern nextBuf Cond gen = Inr (d, gen')"
    and e: "extends base gen"
    and t: "\<forall>t. getTrueBB Cond = Some t \<longrightarrow> next_block base \<le> t \<and> t < next_block gen"
  shows "extends base gen' \<and> next_block gen' = next_block gen \<and>
    InsertionPoint gen' = (if getContBB Cond = None then InsertionPoint gen else getTrueBB Cond)"
proof -
  from r obtain gt where et: "enterTrue Cond gen = Inr gt"
    and g: "gen' = emitUncheckedGetOptionalValueFrom nextBuf pattern
        (emitPatternBindingInitialization pattern (snd (pushScope gt)))"
    by (auto simp: visitForEachStmt_enterBody_def Let_def split_beta split: sum.splits)
  have "extends base gt" by (rule ext_enterTrue [OF et e t])
  then have "extends base gen'"
    unfolding g by (intro ext_collab ext_pushScope)
  with enterTrue_fields [OF et] show ?thesis
    by (simp add: g collab_defs)
qed

lemma ext_visitForEachStmt_afterBody:
  assumes e: "extends base gen" and l: "next_block base \<le> LoopBB" "LoopBB < next_block gen"
  shows "extends base (visitForEachStmt_afterBody d LoopBB Cond gen) \<and>
    InsertionPoint (visitForEachStmt_afterBody d LoopBB Cond gen) = None \<and>
    next_block (visitForEachStmt_afterBody d LoopBB Cond gen) = next_block gen"
proof -
  let ?g1 = "popScope d gen"
  let ?g3 = "if hasValidInsertionPoint ?g1 then createBranch LoopBB [] ?g1 else ?g1"
  have e3: "extends base ?g3"
    by (intro ext_branch_if_valid ext_popScope e) (use l in simp_all)
  have i3: "InsertionPoint ?g3 = None" by (simp add: hasValidInsertionPoint_def)
  have "visitForEachStmt_afterBody d LoopBB Cond gen = exitTrue Cond ?g3"
    by (simp add: visitForEachStmt_afterBody_def Let_def)
  also have "\<dots> = ?g3" using i3 by (rule exitTrue_None)
  finally show ?thesis
    using e3 i3 by simp
qed

lemma ext_wf: "extends base gen \<Longrightarrow> wf_gen gen"
  by (simp add: extends_def)

lemma ext_ip:
  "extends base gen \<Longrightarrow> InsertionPoint gen = None \<or> InsertionPoint gen = InsertionPoint base \<or>
     (\<exists>b. InsertionPoint gen = Some b \<and> next_block base \<le> b)"
  by (simp add: extends_def)

lemma ext_ip_neq:
  "extends base gen \<Longrightarrow> InsertionPoint base \<noteq> Some b \<Longrightarrow> b < next_block base \<Longrightarrow>
     InsertionPoint gen \<noteq> Some b"
  by (auto dest!: ext_ip)

lemma visit_ext:
  "visit S gen = Inr gen' \<Longrightarrow> wf_gen gen \<Longrightarrow> extends gen gen'"
  "visitElements StmtType elements gen = Inr gen' \<Longrightarrow> wf_gen gen \<Longrightarrow> extends gen gen'"
proof (induction S gen and StmtType elements gen arbitrary: gen' and gen'
    rule: visit_visitElements.induct)
  case (1 elements gen)
  note r = ext_refl [OF "1.prems"(2)]
  from "1.prems"(1) obtain g where
    v: "visitElements UnknownStmtType elements (snd (pushScope gen)) = Inr g"
    and g: "gen' = popScope (fst (pushScope gen)) g"
    by (rule visit_BraceStmt_Inr)
  have "extends gen (snd (pushScope gen))" using r by (rule ext_pushScope)
  also have "extends (snd (pushScope gen)) g"
    by (rule "1.IH" [OF refl prod.collapse v]) (rule ext_wf, fact)
  finally show ?case
    unfolding g by (rule ext_popScope)
next
  case (2 result gen)
  then show ?case by (auto intro: ext_visitReturnStmt ext_refl)
next
  case (3 cond thenStmt elseStmt gen)
  note r = ext_refl [OF "3.prems"(2)]
  from "3.prems"(1) show ?case
  proof (cases rule: visit_IfStmt_Inr)
    case (noElse d0 d1 CBs g1 g2)
    note h = ext_visitIfStmt_cond [OF noElse(1) r]
    from h have e1: "extends gen g1" by simp
    have e12: "extends g1 g2"
      by (rule "3.IH"(1) [OF noElse(1) refl refl refl noElse(2) ext_wf [OF e1]])
    from e1 e12 have e2: "extends gen (popScope d1 g2)"
      by (intro ext_popScope) (rule ext_trans)
    have "extends gen (visitIfStmt_noElse CBs (popScope d1 g2))"
      using e2 by (rule ext_visitIfStmt_noElse) (use h ext_next_block [OF e12] in auto)
    then show ?thesis
      unfolding noElse(4) by (rule ext_popScope)
  next
    case (withElse d0 d1 CBs g1 g2 elseS g4)
    let ?p = "popScope d1 g2"
    let ?b = "visitIfStmt_elseBegin CBs ?p"
    note h = ext_visitIfStmt_cond [OF withElse(1) r]
    from h have e1: "extends gen g1" by simp
    have e12: "extends g1 g2"
      by (rule "3.IH"(1) [OF withElse(1) refl refl refl withElse(2) ext_wf [OF e1]])
    from e1 e12 have e2: "extends gen ?p"
      by (intro ext_popScope) (rule ext_trans)
    have e3: "extends gen (snd ?b)"
      using e2 by (rule ext_visitIfStmt_elseBegin) (use h ext_next_block [OF e12] in auto)
    have e34: "extends (snd ?b) g4"
      by (rule "3.IH"(2) [OF withElse(1) refl refl refl withElse(2) refl withElse(3) refl
            prod.collapse withElse(4) ext_wf [OF e3]])
    from e3 e34 have e4: "extends gen g4" by (rule ext_trans)
    have "extends gen (visitIfStmt_elseEnd (fst ?b) g4)"
      using e4
      by (rule ext_visitIfStmt_elseEnd)
        (use ext_next_block [OF e2] ext_next_block [OF e34] in
          \<open>simp_all add: visitIfStmt_elseBegin_fields\<close>)
    then show ?thesis
      unfolding withElse(5) by (rule ext_popScope)
  qed
next
  case (4 gen)
  then show ?case by (simp add: ext_refl)
next
  case (5 S cond body gen)
  note r = ext_refl [OF "5.prems"(2)]
  from "5.prems"(1) obtain d0 d1 LoopBB CBs g1 g2 where
    h: "visitWhileStmt_head S cond gen = Inr (d0, d1, LoopBB, CBs, g1)"
    and b: "visit body g1 = Inr g2"
    and g: "gen' = visitWhileStmt_tail d0 d1 LoopBB CBs g2"
    by (rule visit_WhileStmt_Inr)
  note hh = ext_visitWhileStmt_head [OF h r]
  from hh have e1: "extends gen g1" by simp
  have e12: "extends g1 g2" by (rule "5.IH" [OF h refl refl refl refl b ext_wf [OF e1]])
  from e1 e12 have e2: "extends gen g2" by (rule ext_trans)
  show ?case
    unfolding g using e2
    by (rule ext_visitWhileStmt_tail) (use hh ext_next_block [OF e12] in auto)
next
  case (6 S body cond gen)
  note r = ext_refl [OF "6.prems"(2)]
  from "6.prems"(1) obtain LoopBB EndBB CondBB g1 g2 where
    h: "visitDoWhileStmt_head S gen = (LoopBB, EndBB, CondBB, g1)"
    and b: "visit body g1 = Inr g2"
    and t: "visitDoWhileStmt_tail cond LoopBB EndBB CondBB g2 = Inr gen'"
    by (rule visit_DoWhileStmt_Inr)
  note hh = ext_visitDoWhileStmt_head [OF h r]
  from hh have e1: "extends gen g1" by simp
  have e12: "extends g1 g2" by (rule "6.IH" [OF h [symmetric] refl refl refl b ext_wf [OF e1]])
  from e1 e12 have e2: "extends gen g2" by (rule ext_trans)
  have "InsertionPoint g2 \<noteq> Some EndBB" "InsertionPoint g2 \<noteq> Some CondBB"
    by (rule ext_ip_neq [OF e12]; use hh in simp)+
  with hh ext_next_block [OF e12] show ?case
    by (intro ext_visitDoWhileStmt_tail [OF t e2]) auto
next
  case (7 S decls initializer cond increment body gen)
  note r = ext_refl [OF "7.prems"(2)]
  from "7.prems"(1) show ?case
  proof (cases rule: visit_ForStmt_Inr)
    case (unreachable ForScope g0)
    from ext_visitForStmt_init [OF unreachable(1) r] show ?thesis
      unfolding unreachable(3) by (rule ext_popScope)
  next
    case (loop ForScope g0 LoopBB IncBB EndBB Cond g1 g2 g3)
    have e0: "extends gen g0" by (rule ext_visitForStmt_init [OF loop(1) r])
    note n0 = ext_next_block [OF e0]
    note hh = ext_visitForStmt_head [OF loop(3) e0]
    from hh have e1: "extends gen g1" by simp
    have e2: "extends gen g2"
      by (rule ext_enterTrue [OF loop(5) e1]) (use hh n0 in auto)
    note f2 = enterTrue_fields [OF loop(5)]
    have e23: "extends g2 g3"
      by (rule "7.IH" [OF loop(1) [symmetric] refl _ loop(3) refl refl refl refl loop(4,5,6)
            ext_wf [OF e2]]) (simp add: loop(2))
    from e2 e23 have e3: "extends gen g3" by (rule ext_trans)
    note n23 = ext_next_block [OF e23]
    from hh f2 have "InsertionPoint g2 \<noteq> Some IncBB"
      by (cases "getContBB Cond") auto
    with hh f2 have i3: "InsertionPoint g3 \<noteq> Some IncBB"
      by (intro ext_ip_neq [OF e23]) auto
    let ?ga = "visitForStmt_afterBody increment LoopBB IncBB Cond g3"
    have a: "extends gen ?ga \<and> InsertionPoint ?ga = None \<and> next_block ?ga = next_block g3"
      by (rule ext_visitForStmt_afterBody [OF e3]) (use hh n0 n23 f2 i3 in auto)
    show ?thesis
      unfolding loop(7)
      by (rule ext_visitForStmt_end) (use a hh n0 n23 f2 in auto)
  qed
next
  case (8 S generator generatorNext pattern body gen)
  note r = ext_refl [OF "8.prems"(2)]
  let ?g0 = "visitDecl generator (snd (pushScope gen))"
  let ?d = "fst (pushScope gen)"
  have e0: "extends gen ?g0" by (intro ext_collab ext_pushScope r)
  have n0: "next_block ?g0 = next_block gen" by (simp add: collab_defs)
  from "8.prems"(1) show ?case
  proof (cases rule: visit_ForEachStmt_Inr)
    case unreachable
    from e0 show ?thesis
      unfolding unreachable(2) by (rule ext_popScope)
  next
    case (loop nextBuf LoopBB EndBB Cond g1 d2 g2 g3)
    note hh = ext_visitForEachStmt_head [OF loop(2) e0]
    from hh have e1: "extends gen g1" by simp
    note bb = ext_visitForEachStmt_enterBody [OF loop(4) e1]
    have b: "extends gen g2 \<and> next_block g2 = next_block g1 \<and>
        InsertionPoint g2 = (if getContBB Cond = None then InsertionPoint g1 else getTrueBB Cond)"
      by (rule bb) (use hh n0 in auto)
    then have e2: "extends gen g2" by simp
    have e23: "extends g2 g3"
      by (rule "8.IH" [OF refl prod.collapse refl _ loop(2) refl refl refl refl loop(3,4) refl
            loop(5) ext_wf [OF e2]]) (simp add: loop(1))
    from e2 e23 have e3: "extends gen g3" by (rule ext_trans)
    note n23 = ext_next_block [OF e23]
    let ?ga = "visitForEachStmt_afterBody d2 LoopBB Cond g3"
    have a: "extends gen ?ga \<and> InsertionPoint ?ga = None \<and> next_block ?ga = next_block g3"
      by (rule ext_visitForEachStmt_afterBody [OF e3]) (use hh n0 n23 b in auto)
    show ?thesis
      unfolding loop(6)
      by (rule ext_visitForStmt_end) (use a hh n0 n23 b in auto)
  qed
next
  case (9 target gen)
  then show ?case by (auto intro: ext_visitBreakStmt ext_refl)
next
  case (10 target gen)
  then show ?case by (auto intro: ext_visitContinueStmt ext_refl)
next
  case (11 gen)
  then show ?case by simp
next
  case (12 gen)
  then show ?case by (auto intro: ext_visitFailStmt ext_refl)
next
  case (13 StmtType gen)
  then show ?case by (simp add: ext_refl)
next
  case (14 StmtType S elements gen)
  note r = ext_refl [OF "14.prems"(2)]
  from "14.prems"(1) show ?case
  proof (cases rule: visitElements_Stmt_Inr)
    case config
    then show ?thesis using "14.prems"(2) by (intro "14.IH"(1))
  next
    case unreachable
    with r show ?thesis by (simp add: diagnoseUnreachable_def ext_diagnose)
  next
    case (lower g1)
    have e1: "extends gen g1"
      by (rule "14.IH"(2) [OF lower(1) _ lower(3) "14.prems"(2)]) (simp add: lower(2))
    also have "extends g1 gen'"
      by (rule "14.IH"(3) [OF lower(1) _ lower(3,4) ext_wf [OF e1]]) (simp add: lower(2))
    finally show ?thesis .
  qed
next
  case (15 StmtType E elements gen)
  note r = ext_refl [OF "15.prems"(2)]
  show ?case
  proof (cases "hasValidInsertionPoint gen")
    case False
    with "15.prems" r show ?thesis by (auto simp: diagnoseUnreachable_def ext_diagnose)
  next
    case True
    have e1: "extends gen (emitIgnoredExpr E gen)" using r by (rule ext_collab)
    from True "15.prems" "15.IH" ext_wf [OF e1] have "extends (emitIgnoredExpr E gen) gen'" by simp
    with e1 show ?thesis by (rule ext_trans)
  qed
next
  case (16 StmtType D elements gen)
  note r = ext_refl [OF "16.prems"(2)]
  show ?case
  proof (cases "hasValidInsertionPoint gen")
    case False
    with "16.prems" r show ?thesis by (auto simp: diagnoseUnreachable_def ext_diagnose)
  next
    case True
    have e1: "extends gen (visitDecl D gen)" using r by (rule ext_collab)
    from True "16.prems" "16.IH" ext_wf [OF e1] have "extends (visitDecl D gen) gen'" by simp
    with e1 show ?thesis by (rule ext_trans)
  qed
qed

subsection \<open>The failure edges of a condition\<close>

lemma appendInst_fields [simp]:
  "next_block (appendInst bb i gen) = next_block gen"
  "next_slot (appendInst bb i gen) = next_slot gen"
  "layout (appendInst bb i gen) = layout gen"
  "InsertionPoint (appendInst bb i gen) = InsertionPoint gen"
  "insts (blocks (appendInst bb i gen) b) =
     (if b = bb then insts (blocks gen b) @ [i] else insts (blocks gen b))"
  by (simp_all add: appendInst_def)

lemma prependInst_fields [simp]:
  "next_block (prependInst bb i gen) = next_block gen"
  "next_slot (prependInst bb i gen) = next_slot gen"
  "layout (prependInst bb i gen) = layout gen"
  "InsertionPoint (prependInst bb i gen) = InsertionPoint gen"
  "insts (blocks (prependInst bb i gen) b) =
     (if b = bb then i # insts (blocks gen b) else insts (blocks gen b))"
  by (simp_all add: prependInst_def)





lemma destroyedSlots_append [simp]:
  "destroyedSlots (xs @ ys) = destroyedSlots xs @ destroyedSlots ys"
  by (induction xs) simp_all

lemma destroyedSlots_External [simp]: "destroyedSlots (map External es) = []"
  by (induction es) simp_all













end
